theory Spec2Isabelle
  imports Main
begin

section \<open>Data model of the chess engine (src/lib/chess-engine.ts)\<close>

datatype PieceColor = White | Black

datatype PieceType = Pawn | Knight | Bishop | Rook | Queen | King

record Piece =
  color :: PieceColor
  type :: PieceType

type_synonym Square = "Piece option"

type_synonym Board = "Square list list"

record CastlingRights =
  castK :: bool
  castQ :: bool
  castk :: bool
  castq :: bool

record GameState =
  board :: Board
  turn :: PieceColor
  castling :: CastlingRights
  enPassant :: "string option"
  halfmoveClock :: int
  fullmoveNumber :: int

text \<open>
  The TypeScript \<open>number\<close> of the two clocks and of every coordinate is modelled by
  \<open>int\<close>: the engine only adds and subtracts small integers, where the two agree.
  \<open>board[r][c]\<close> is read with \<open>boardAt\<close>: a column past the end of a row reads
  \<open>undefined\<close>, which every test of the source treats like \<open>null\<close>; a row index
  outside the array makes the source throw, and each function below that can reach such
  a read returns \<open>TypeError\<close> instead.
\<close>

datatype error = TypeError

definition FILES :: string where
  "FILES = ''abcdefgh''"

definition RANKS :: string where
  "RANKS = ''87654321''"

definition inBounds :: "int \<Rightarrow> int \<Rightarrow> bool" where
  "inBounds r c \<longleftrightarrow> r \<ge> 0 \<and> r < 8 \<and> c \<ge> 0 \<and> c < 8"

definition boardAt :: "Board \<Rightarrow> int \<Rightarrow> int \<Rightarrow> Square" where
  "boardAt b r c =
     (if 0 \<le> r \<and> r < int (length b) \<and> 0 \<le> c \<and> c < int (length (b ! nat r))
      then b ! nat r ! nat c else None)"

definition enemyOf :: "PieceColor \<Rightarrow> PieceColor" where
  "enemyOf c = (if c = White then Black else White)"

section \<open>Coordinate helpers\<close>

text \<open>
  \<open>String.prototype.indexOf\<close> on a one-character needle: the position of the first
  occurrence, or \<open>-1\<close>. The needle \<open>None\<close> is \<open>undefined\<close> (a character read past
  the end of the string), which is never found in \<open>FILES\<close> or \<open>RANKS\<close>.
\<close>

fun indexOfFrom :: "string \<Rightarrow> char \<Rightarrow> int \<Rightarrow> int" where
  "indexOfFrom [] ch i = -1"
| "indexOfFrom (x # xs) ch i = (if x = ch then i else indexOfFrom xs ch (i + 1))"

definition indexOf :: "string \<Rightarrow> char option \<Rightarrow> int" where
  "indexOf s ch = (case ch of None \<Rightarrow> -1 | Some x \<Rightarrow> indexOfFrom s x 0)"

definition charAt :: "string \<Rightarrow> nat \<Rightarrow> char option" where
  "charAt s i = (if i < length s then Some (s ! i) else None)"

definition sqToRC :: "string \<Rightarrow> int \<times> int" where
  "sqToRC sq = (indexOf RANKS (charAt sq 1), indexOf FILES (charAt sq 0))"

text \<open>
  \<open>rcToSq\<close> concatenates \<open>FILES[c]\<close> and \<open>RANKS[r]\<close>. Every call of the source passes
  coordinates inside the board. With one coordinate outside it JavaScript concatenates
  the text \<open>undefined\<close>, which is written out here; with both outside it adds
  \<open>undefined\<close> to \<open>undefined\<close> and gets the number \<open>NaN\<close>, which a text cannot say: there
  the value of the model is not the value of the source, and nothing below depends on it.
\<close>

definition strAt :: "string \<Rightarrow> int \<Rightarrow> string" where
  "strAt s i = (if 0 \<le> i \<and> i < int (length s) then [s ! nat i] else ''undefined'')"

definition rcToSq :: "int \<Rightarrow> int \<Rightarrow> string" where
  "rcToSq r c = strAt FILES c @ strAt RANKS r"

section \<open>Attack detection\<close>

definition pieceIs :: "Square \<Rightarrow> PieceColor \<Rightarrow> PieceType list \<Rightarrow> bool" where
  "pieceIs sq by ts = (case sq of None \<Rightarrow> False | Some p \<Rightarrow> color p = by \<and> type p \<in> set ts)"

definition knightMoves :: "(int \<times> int) list" where
  "knightMoves = [(-2, -1), (-2, 1), (-1, -2), (-1, 2), (1, -2), (1, 2), (2, -1), (2, 1)]"

definition kingSteps :: "(int \<times> int) list" where
  "kingSteps = [(-1, -1), (-1, 0), (-1, 1), (0, -1), (0, 1), (1, -1), (1, 0), (1, 1)]"

definition directions :: "(int \<times> int \<times> PieceType list) list" where
  "directions =
     [(-1, 0, [Rook, Queen]), (1, 0, [Rook, Queen]), (0, -1, [Rook, Queen]), (0, 1, [Rook, Queen]),
      (-1, -1, [Bishop, Queen]), (-1, 1, [Bishop, Queen]), (1, -1, [Bishop, Queen]), (1, 1, [Bishop, Queen])]"

text \<open>
  The \<open>while (inBounds(nr, nc))\<close> walk along one ray. The source only walks the eight
  unit directions; the test that the direction is not \<open>(0, 0)\<close> is what makes the
  recursion well-founded for every argument.
\<close>

function slideAttack :: "Board \<Rightarrow> PieceColor \<Rightarrow> PieceType list \<Rightarrow> int \<Rightarrow> int \<Rightarrow> int \<Rightarrow> int \<Rightarrow> bool" where
  "slideAttack b by ts dr dc nr nc =
     (if inBounds nr nc \<and> (dr \<noteq> 0 \<or> dc \<noteq> 0)
      then (case boardAt b nr nc of
              Some p \<Rightarrow> color p = by \<and> type p \<in> set ts
            | None \<Rightarrow> slideAttack b by ts dr dc (nr + dr) (nc + dc))
      else False)"
  by pat_completeness auto
termination
  by (relation "measure (\<lambda>(b, by, ts, dr, dc, nr, nc).
        if dr > 0 then nat (8 - nr) else if dr < 0 then nat (nr + 1)
        else if dc > 0 then nat (8 - nc) else nat (nc + 1))")
     (auto simp: inBounds_def)

declare slideAttack.simps [simp del]

definition isAttackedBy :: "Board \<Rightarrow> int \<Rightarrow> int \<Rightarrow> PieceColor \<Rightarrow> bool" where
  "isAttackedBy b r c by =
     (let pawnDir = (if by = White then 1 else -1) in
      list_ex (\<lambda>dc. inBounds (r + pawnDir) (c + dc) \<and>
                     pieceIs (boardAt b (r + pawnDir) (c + dc)) by [Pawn]) [-1, 1]
      \<or> list_ex (\<lambda>(dr, dc). inBounds (r + dr) (c + dc) \<and>
                     pieceIs (boardAt b (r + dr) (c + dc)) by [Knight]) knightMoves
      \<or> list_ex (\<lambda>(dr, dc). inBounds (r + dr) (c + dc) \<and>
                     pieceIs (boardAt b (r + dr) (c + dc)) by [King]) kingSteps
      \<or> list_ex (\<lambda>(dr, dc, ts). slideAttack b by ts dr dc (r + dr) (c + dc)) directions)"

text \<open>
  \<open>findKing\<close> scans rows 0 to 7 and, in each, columns 0 to 7, and answers \<open>[-1, -1]\<close>
  when there is no king of that colour.
\<close>

definition squares :: "(int \<times> int) list" where
  "squares = concat (map (\<lambda>r. map (\<lambda>c. (r, c)) [0, 1, 2, 3, 4, 5, 6, 7]) [0, 1, 2, 3, 4, 5, 6, 7])"

definition findKing :: "Board \<Rightarrow> PieceColor \<Rightarrow> int \<times> int" where
  "findKing b col =
     (case filter (\<lambda>(r, c). pieceIs (boardAt b r c) col [King]) squares of
        [] \<Rightarrow> (-1, -1) | rc # _ \<Rightarrow> rc)"

definition isInCheck :: "Board \<Rightarrow> PieceColor \<Rightarrow> bool" where
  "isInCheck b col = (case findKing b col of (kr, kc) \<Rightarrow> isAttackedBy b kr kc (enemyOf col))"

section \<open>Pseudo-legal move generation\<close>

record RawMove =
  fromR :: int
  fromC :: int
  toR :: int
  toC :: int
  promotion :: "PieceType option"

definition mkMove :: "int \<Rightarrow> int \<Rightarrow> int \<Rightarrow> int \<Rightarrow> PieceType option \<Rightarrow> RawMove" where
  "mkMove r c tr tc promo = \<lparr>fromR = r, fromC = c, toR = tr, toC = tc, promotion = promo\<rparr>"

definition promoKinds :: "PieceType list" where
  "promoKinds = [Queen, Rook, Bishop, Knight]"

text \<open>Whether a square holds no piece of the side to move (\<open>!t || t.color !== turn\<close>).\<close>

definition freeFor :: "Square \<Rightarrow> PieceColor \<Rightarrow> bool" where
  "freeFor t trn = (case t of None \<Rightarrow> True | Some p \<Rightarrow> color p \<noteq> trn)"

definition isEnemy :: "Square \<Rightarrow> PieceColor \<Rightarrow> bool" where
  "isEnemy t trn = (case t of None \<Rightarrow> False | Some p \<Rightarrow> color p \<noteq> trn)"

text \<open>\<open>enPassant ? sqToRC(enPassant) : null\<close>: \<open>null\<close> and the empty string are falsy.\<close>

definition epSquare :: "string option \<Rightarrow> (int \<times> int) option" where
  "epSquare ep = (case ep of None \<Rightarrow> None | Some sq \<Rightarrow> if sq = [] then None else Some (sqToRC sq))"

definition pawnDir :: "PieceColor \<Rightarrow> int" where
  "pawnDir trn = (if trn = White then -1 else 1)"

definition startRank :: "PieceColor \<Rightarrow> int" where
  "startRank trn = (if trn = White then 6 else 1)"

definition promoRank :: "PieceColor \<Rightarrow> int" where
  "promoRank trn = (if trn = White then 0 else 7)"

text \<open>A pawn arriving on the far rank is emitted once per promotion kind.\<close>

definition pawnArrives :: "PieceColor \<Rightarrow> int \<Rightarrow> int \<Rightarrow> int \<Rightarrow> int \<Rightarrow> RawMove list" where
  "pawnArrives trn r c tr tc =
     (if tr = promoRank trn then map (\<lambda>p. mkMove r c tr tc (Some p)) promoKinds
      else [mkMove r c tr tc None])"

definition pawnForward :: "GameState \<Rightarrow> int \<Rightarrow> int \<Rightarrow> RawMove list" where
  "pawnForward s r c =
     (let b = board s; trn = turn s; dir = pawnDir trn in
      if inBounds (r + dir) c \<and> boardAt b (r + dir) c = None
      then pawnArrives trn r c (r + dir) c
           @ (if r = startRank trn \<and> boardAt b (r + 2 * dir) c = None
              then [mkMove r c (r + 2 * dir) c None] else [])
      else [])"

definition pawnCapture :: "GameState \<Rightarrow> int \<Rightarrow> int \<Rightarrow> int \<Rightarrow> RawMove list" where
  "pawnCapture s r c dc =
     (let b = board s; trn = turn s; dir = pawnDir trn; nc = c + dc in
      if \<not> inBounds (r + dir) nc then []
      else if isEnemy (boardAt b (r + dir) nc) trn then pawnArrives trn r c (r + dir) nc
      else (case epSquare (enPassant s) of
              None \<Rightarrow> []
            | Some (epR, epC) \<Rightarrow>
                if epR = r + dir \<and> epC = nc then [mkMove r c (r + dir) nc None] else []))"

definition pawnMoves :: "GameState \<Rightarrow> int \<Rightarrow> int \<Rightarrow> RawMove list" where
  "pawnMoves s r c = pawnForward s r c @ concat (map (pawnCapture s r c) [-1, 1])"

definition stepMoves :: "GameState \<Rightarrow> int \<Rightarrow> int \<Rightarrow> (int \<times> int) list \<Rightarrow> RawMove list" where
  "stepMoves s r c offsets =
     concat (map (\<lambda>(dr, dc).
       if inBounds (r + dr) (c + dc) \<and> freeFor (boardAt (board s) (r + dr) (c + dc)) (turn s)
       then [mkMove r c (r + dr) (c + dc) None] else []) offsets)"

function slideMoves :: "Board \<Rightarrow> PieceColor \<Rightarrow> int \<Rightarrow> int \<Rightarrow> int \<Rightarrow> int \<Rightarrow> int \<Rightarrow> int \<Rightarrow> RawMove list" where
  "slideMoves b trn r c dr dc nr nc =
     (if inBounds nr nc \<and> (dr \<noteq> 0 \<or> dc \<noteq> 0)
      then (case boardAt b nr nc of
              Some t \<Rightarrow> (if color t \<noteq> trn then [mkMove r c nr nc None] else [])
            | None \<Rightarrow> mkMove r c nr nc None # slideMoves b trn r c dr dc (nr + dr) (nc + dc))
      else [])"
  by pat_completeness auto
termination
  by (relation "measure (\<lambda>(b, trn, r, c, dr, dc, nr, nc).
        if dr > 0 then nat (8 - nr) else if dr < 0 then nat (nr + 1)
        else if dc > 0 then nat (8 - nc) else nat (nc + 1))")
     (auto simp: inBounds_def)

declare slideMoves.simps [simp del]

definition bishopDirs :: "(int \<times> int) list" where
  "bishopDirs = [(-1, -1), (-1, 1), (1, -1), (1, 1)]"

definition rookDirs :: "(int \<times> int) list" where
  "rookDirs = [(-1, 0), (1, 0), (0, -1), (0, 1)]"

definition sliderDirs :: "PieceType \<Rightarrow> (int \<times> int) list" where
  "sliderDirs t = (if t = Bishop then bishopDirs else if t = Rook then rookDirs
                   else bishopDirs @ rookDirs)"

definition sliderMoves :: "GameState \<Rightarrow> int \<Rightarrow> int \<Rightarrow> PieceType \<Rightarrow> RawMove list" where
  "sliderMoves s r c t =
     concat (map (\<lambda>(dr, dc). slideMoves (board s) (turn s) r c dr dc (r + dr) (c + dc))
                 (sliderDirs t))"

text \<open>
  One castling test of the source: the right, the empty squares between king and rook,
  the rook on its home square, and the three squares \<open>(row, 4)\<close>, the transit square and
  the destination not attacked. The king's own square \<open>(r, c)\<close> is not consulted.
\<close>

definition castleMove ::
  "GameState \<Rightarrow> int \<Rightarrow> int \<Rightarrow> bool \<Rightarrow> int \<Rightarrow> int list \<Rightarrow> int \<Rightarrow> int \<Rightarrow> int \<Rightarrow> RawMove list" where
  "castleMove s r c right row empties rookC transit dest =
     (let b = board s; trn = turn s; enemy = enemyOf trn in
      if right \<and> list_all (\<lambda>e. boardAt b row e = None) empties
         \<and> pieceIs (boardAt b row rookC) trn [Rook]
      then (if \<not> isAttackedBy b row 4 enemy \<and> \<not> isAttackedBy b row transit enemy
               \<and> \<not> isAttackedBy b row dest enemy
            then [mkMove r c row dest None] else [])
      else [])"

definition castlingMoves :: "GameState \<Rightarrow> int \<Rightarrow> int \<Rightarrow> RawMove list" where
  "castlingMoves s r c =
     (if turn s = White
      then castleMove s r c (castK (castling s)) 7 [5, 6] 7 5 6
           @ castleMove s r c (castQ (castling s)) 7 [3, 2, 1] 0 3 2
      else castleMove s r c (castk (castling s)) 0 [5, 6] 7 5 6
           @ castleMove s r c (castq (castling s)) 0 [3, 2, 1] 0 3 2)"

definition pieceMoves :: "GameState \<Rightarrow> int \<Rightarrow> int \<Rightarrow> PieceType \<Rightarrow> RawMove list" where
  "pieceMoves s r c t =
     (case t of
        Pawn \<Rightarrow> pawnMoves s r c
      | Knight \<Rightarrow> stepMoves s r c knightMoves
      | King \<Rightarrow> stepMoves s r c kingSteps @ castlingMoves s r c
      | _ \<Rightarrow> sliderMoves s r c t)"

definition movesFrom :: "GameState \<Rightarrow> int \<times> int \<Rightarrow> RawMove list" where
  "movesFrom s rc =
     (case rc of (r, c) \<Rightarrow>
        (case boardAt (board s) r c of
           None \<Rightarrow> []
         | Some piece \<Rightarrow> if color piece \<noteq> turn s then [] else pieceMoves s r c (type piece)))"

text \<open>
  The scan reads \<open>board[r][c]\<close> for every \<open>r\<close> from 0 to 7, so it throws on a board with
  fewer than eight rows; with eight rows or more no read of the generator or of
  \<open>isAttackedBy\<close> leaves the array of rows.
\<close>

definition generatePseudoLegalMoves :: "GameState \<Rightarrow> error + RawMove list" where
  "generatePseudoLegalMoves s =
     (if length (board s) < 8 then Inl TypeError
      else Inr (concat (map (movesFrom s) squares)))"

section \<open>Applying a move\<close>

text \<open>
  \<open>row[c] = v\<close> on a JavaScript array: inside the array it replaces the element; past
  its end it extends the array with holes, which read as \<open>undefined\<close> (\<open>None\<close>) up to
  the new element. A negative \<open>c\<close> sets a property that is no array element:
  \<open>cloneBoard\<close> (\<open>Array.prototype.map\<close>) drops it and every read of the engine is at
  a column from 0 on or on a fresh clone, so the list is left as it is.
\<close>

definition rowSet :: "Square list \<Rightarrow> int \<Rightarrow> Square \<Rightarrow> Square list" where
  "rowSet row c v =
     (if c < 0 then row
      else if nat c < length row then row[nat c := v]
      else row @ replicate (nat c - length row) None @ [v])"

definition setCell :: "Board \<Rightarrow> int \<Rightarrow> int \<Rightarrow> Square \<Rightarrow> Board" where
  "setCell b r c v = b[nat r := rowSet (b ! nat r) c v]"

definition rowOk :: "Board \<Rightarrow> int \<Rightarrow> bool" where
  "rowOk b r \<longleftrightarrow> 0 \<le> r \<and> r < int (length b)"

definition updateCastling :: "CastlingRights \<Rightarrow> Piece \<Rightarrow> Square \<Rightarrow> RawMove \<Rightarrow> CastlingRights" where
  "updateCastling cr piece captured m =
     (let cr1 = (if type piece = King
                 then (if color piece = White then cr\<lparr>castK := False, castQ := False\<rparr>
                       else cr\<lparr>castk := False, castq := False\<rparr>)
                 else cr);
          cr2 = (if type piece = Rook
                 then cr1\<lparr>castK := castK cr1 \<and> \<not> (fromR m = 7 \<and> fromC m = 7),
                          castQ := castQ cr1 \<and> \<not> (fromR m = 7 \<and> fromC m = 0),
                          castk := castk cr1 \<and> \<not> (fromR m = 0 \<and> fromC m = 7),
                          castq := castq cr1 \<and> \<not> (fromR m = 0 \<and> fromC m = 0)\<rparr>
                 else cr1)
      in (if pieceIs captured White [Rook] \<or> pieceIs captured Black [Rook]
          then cr2\<lparr>castK := castK cr2 \<and> \<not> (toR m = 7 \<and> toC m = 7),
                   castQ := castQ cr2 \<and> \<not> (toR m = 7 \<and> toC m = 0),
                   castk := castk cr2 \<and> \<not> (toR m = 0 \<and> toC m = 7),
                   castq := castq cr2 \<and> \<not> (toR m = 0 \<and> toC m = 0)\<rparr>
          else cr2))"

text \<open>
  \<open>applyRawMove\<close> works on a clone of the state, so the argument is never changed; the
  model returns the new state. The source throws a \<open>TypeError\<close> when \<open>board[move.fromR]\<close>
  or \<open>board[move.toR]\<close> is no row, and when the origin holds no piece
  (\<open>piece.type\<close> of \<open>null\<close>).
\<close>

definition movedBoard :: "Board \<Rightarrow> string option \<Rightarrow> RawMove \<Rightarrow> Piece \<Rightarrow> Board" where
  "movedBoard b ep m piece =
     (let b1 = (if type piece = Pawn
                then (case epSquare ep of
                        None \<Rightarrow> b
                      | Some (epR, epC) \<Rightarrow>
                          if toR m = epR \<and> toC m = epC then setCell b (fromR m) epC None else b)
                else b);
          b2 = setCell b1 (toR m) (toC m)
                 (Some (case promotion m of
                          Some p \<Rightarrow> \<lparr>color = color piece, type = p\<rparr>
                        | None \<Rightarrow> piece));
          b3 = setCell b2 (fromR m) (fromC m) None
      in if type piece = King
         then (if toC m - fromC m = 2
               then setCell (setCell b3 (fromR m) 5 (boardAt b3 (fromR m) 7)) (fromR m) 7 None
               else if fromC m - toC m = 2
               then setCell (setCell b3 (fromR m) 3 (boardAt b3 (fromR m) 0)) (fromR m) 0 None
               else b3)
         else b3)"

definition movedState :: "GameState \<Rightarrow> RawMove \<Rightarrow> Piece \<Rightarrow> GameState" where
  "movedState s m piece =
     (let captured = boardAt (board s) (toR m) (toC m) in
      \<lparr>board = movedBoard (board s) (enPassant s) m piece,
       turn = (if turn s = White then Black else White),
       castling = updateCastling (castling s) piece captured m,
       enPassant = (if type piece = Pawn \<and> \<bar>toR m - fromR m\<bar> = 2
                    then Some (rcToSq ((fromR m + toR m) div 2) (fromC m)) else None),
       halfmoveClock = (if type piece = Pawn \<or> captured \<noteq> None then 0
                        else halfmoveClock s + 1),
       fullmoveNumber = (if turn s = Black then fullmoveNumber s + 1
                         else fullmoveNumber s)\<rparr>)"

definition applyRawMove :: "GameState \<Rightarrow> RawMove \<Rightarrow> error + GameState" where
  "applyRawMove s m =
     (if \<not> rowOk (board s) (fromR m) \<or> \<not> rowOk (board s) (toR m) then Inl TypeError
      else (case boardAt (board s) (fromR m) (fromC m) of
              None \<Rightarrow> Inl TypeError
            | Some piece \<Rightarrow> Inr (movedState s m piece)))"

section \<open>Legal moves and their notation\<close>

record LegalMove =
  from_sq :: string
  to_sq :: string
  uci :: string
  san :: string
  piece :: PieceType
  captured :: "PieceType option"
  promo :: "PieceType option"

definition typeLetter :: "PieceType \<Rightarrow> char" where
  "typeLetter t = (case t of Pawn \<Rightarrow> CHR ''p'' | Knight \<Rightarrow> CHR ''n'' | Bishop \<Rightarrow> CHR ''b''
                   | Rook \<Rightarrow> CHR ''r'' | Queen \<Rightarrow> CHR ''q'' | King \<Rightarrow> CHR ''k'')"

definition upperLetter :: "PieceType \<Rightarrow> char" where
  "upperLetter t = (case t of Pawn \<Rightarrow> CHR ''P'' | Knight \<Rightarrow> CHR ''N'' | Bishop \<Rightarrow> CHR ''B''
                    | Rook \<Rightarrow> CHR ''R'' | Queen \<Rightarrow> CHR ''Q'' | King \<Rightarrow> CHR ''K'')"

text \<open>
  The legality filter of \<open>getLegalMoves\<close>: each pseudo-move is applied, and kept when
  the side that moved is not in check on the resulting board.
\<close>

fun legalFilter :: "GameState \<Rightarrow> RawMove list \<Rightarrow> error + RawMove list" where
  "legalFilter s [] = Inr []"
| "legalFilter s (m # ms) =
     (case applyRawMove s m of
        Inl e \<Rightarrow> Inl e
      | Inr next \<Rightarrow>
          (case legalFilter s ms of
             Inl e \<Rightarrow> Inl e
           | Inr rest \<Rightarrow> Inr (if \<not> isInCheck (board next) (turn s) then m # rest else rest)))"

definition legalRaw :: "GameState \<Rightarrow> error + RawMove list" where
  "legalRaw s = (case generatePseudoLegalMoves s of Inl e \<Rightarrow> Inl e | Inr ps \<Rightarrow> legalFilter s ps)"

text \<open>
  \<open>generateSAN\<close> calls \<open>getLegalMoves\<close> on the successor state when the move gives check,
  and \<open>getLegalMoves\<close> calls \<open>generateSAN\<close> for each of its moves. The recursion is
  modelled with fuel: \<open>glm\<close> is \<open>getLegalMoves\<close> with one unit less, and the result
  \<open>None\<close> says that the call did not return within the fuel. \<open>Some (Inl TypeError)\<close> is
  a thrown error and \<open>Some (Inr x)\<close> the returned value.

  The source compares moves by object identity (\<open>m !== move\<close>); the move is therefore
  given by its index \<open>i\<close> in \<open>allMoves\<close>.
\<close>

definition typeAt :: "Board \<Rightarrow> int \<Rightarrow> int \<Rightarrow> PieceType option" where
  "typeAt b r c = (case boardAt b r c of None \<Rightarrow> None | Some p \<Rightarrow> Some (type p))"

definition disambiguation :: "GameState \<Rightarrow> Piece \<Rightarrow> nat \<Rightarrow> RawMove list \<Rightarrow> string" where
  "disambiguation s pc i allMoves =
     (let move = allMoves ! i;
          samePieceMoves =
            map snd (filter (\<lambda>(j, m). j \<noteq> i
                       \<and> typeAt (board s) (fromR m) (fromC m) = Some (type pc)
                       \<and> toR m = toR move \<and> toC m = toC move)
                    (zip [0..<length allMoves] allMoves))
      in if samePieceMoves \<noteq> []
         then (let sameFile = list_ex (\<lambda>m. fromC m = fromC move) samePieceMoves;
                   sameRank = list_ex (\<lambda>m. fromR m = fromR move) samePieceMoves
               in if \<not> sameFile then strAt FILES (fromC move)
                  else if \<not> sameRank then strAt RANKS (fromR move)
                  else strAt FILES (fromC move) @ strAt RANKS (fromR move))
         else [])"

definition checkSuffix ::
  "(GameState \<Rightarrow> (error + LegalMove list) option) \<Rightarrow> GameState \<Rightarrow> RawMove \<Rightarrow> (error + string) option" where
  "checkSuffix glm s move =
     (case applyRawMove s move of
        Inl e \<Rightarrow> Some (Inl e)
      | Inr nextState \<Rightarrow>
          if isInCheck (board nextState) (turn nextState)
          then (case glm nextState of
                  None \<Rightarrow> None
                | Some (Inl e) \<Rightarrow> Some (Inl e)
                | Some (Inr nextMoves) \<Rightarrow> Some (Inr (if length nextMoves = 0 then ''#'' else ''+'')))
          else Some (Inr []))"

definition generateSAN ::
  "(GameState \<Rightarrow> (error + LegalMove list) option) \<Rightarrow> GameState \<Rightarrow> nat \<Rightarrow> RawMove list
     \<Rightarrow> (error + string) option" where
  "generateSAN glm s i allMoves =
     (let move = allMoves ! i in
      case boardAt (board s) (fromR move) (fromC move) of
        None \<Rightarrow> Some (Inl TypeError)
      | Some pc \<Rightarrow>
         (let capt = boardAt (board s) (toR move) (toC move);
              toSq = rcToSq (toR move) (toC move)
          in if type pc = King \<and> toC move - fromC move = 2 then Some (Inr ''O-O'')
             else if type pc = King \<and> fromC move - toC move = 2 then Some (Inr ''O-O-O'')
             else
               (let body =
                  (if type pc = Pawn
                   then (if capt \<noteq> None
                            \<or> (case enPassant s of None \<Rightarrow> False
                                | Some ep \<Rightarrow> ep \<noteq> [] \<and> toSq = ep)
                         then strAt FILES (fromC move) @ ''x'' else [])
                        @ toSq
                        @ (case promotion move of None \<Rightarrow> [] | Some p \<Rightarrow> ''='' @ [upperLetter p])
                   else [upperLetter (type pc)] @ disambiguation s pc i allMoves
                        @ (if capt \<noteq> None then ''x'' else []) @ toSq)
                in case checkSuffix glm s move of
                     None \<Rightarrow> None
                   | Some (Inl e) \<Rightarrow> Some (Inl e)
                   | Some (Inr suffix) \<Rightarrow> Some (Inr (body @ suffix)))))"

definition capturedType :: "GameState \<Rightarrow> Piece \<Rightarrow> RawMove \<Rightarrow> PieceType option" where
  "capturedType s pc move =
     (case boardAt (board s) (toR move) (toC move) of
        Some cp \<Rightarrow> Some (type cp)
      | None \<Rightarrow>
          if type pc = Pawn
          then (case epSquare (enPassant s) of
                  None \<Rightarrow> None
                | Some (epR, epC) \<Rightarrow> if toR move = epR \<and> toC move = epC then Some Pawn else None)
          else None)"

definition uciOf :: "RawMove \<Rightarrow> string" where
  "uciOf move = rcToSq (fromR move) (fromC move) @ rcToSq (toR move) (toC move)
                @ (case promotion move of None \<Rightarrow> [] | Some p \<Rightarrow> [typeLetter p])"

definition toLegalMove ::
  "(GameState \<Rightarrow> (error + LegalMove list) option) \<Rightarrow> GameState \<Rightarrow> RawMove list \<Rightarrow> nat
     \<Rightarrow> (error + LegalMove) option" where
  "toLegalMove glm s raws i =
     (let move = raws ! i in
      case boardAt (board s) (fromR move) (fromC move) of
        None \<Rightarrow> Some (Inl TypeError)
      | Some pc \<Rightarrow>
          (case generateSAN glm s i raws of
             None \<Rightarrow> None
           | Some (Inl e) \<Rightarrow> Some (Inl e)
           | Some (Inr sn) \<Rightarrow>
               Some (Inr \<lparr>from_sq = rcToSq (fromR move) (fromC move),
                          to_sq = rcToSq (toR move) (toC move),
                          uci = uciOf move,
                          san = sn,
                          piece = type pc,
                          captured = capturedType s pc move,
                          promo = promotion move\<rparr>)))"

text \<open>\<open>Array.prototype.map\<close> runs the elements in order: the first that throws or does
  not return decides the outcome.\<close>

fun sequenceAll :: "(error + 'a) option list \<Rightarrow> (error + 'a list) option" where
  "sequenceAll [] = Some (Inr [])"
| "sequenceAll (x # xs) =
     (case x of
        None \<Rightarrow> None
      | Some (Inl e) \<Rightarrow> Some (Inl e)
      | Some (Inr v) \<Rightarrow>
          (case sequenceAll xs of
             None \<Rightarrow> None
           | Some (Inl e) \<Rightarrow> Some (Inl e)
           | Some (Inr vs) \<Rightarrow> Some (Inr (v # vs))))"

definition getLegalMovesBody ::
  "(GameState \<Rightarrow> (error + LegalMove list) option) \<Rightarrow> GameState \<Rightarrow> (error + LegalMove list) option" where
  "getLegalMovesBody glm s =
     (case legalRaw s of
        Inl e \<Rightarrow> Some (Inl e)
      | Inr raws \<Rightarrow> sequenceAll (map (toLegalMove glm s raws) [0..<length raws]))"

primrec getLegalMoves :: "nat \<Rightarrow> GameState \<Rightarrow> (error + LegalMove list) option" where
  "getLegalMoves 0 = (\<lambda>s. None)"
| "getLegalMoves (Suc n) = getLegalMovesBody (getLegalMoves n)"

section \<open>Game status and moves by action string\<close>

datatype GameStatus =
  playing | checkmate_white | checkmate_black | stalemate | draw_50 | draw_insufficient

definition boardPieces :: "Board \<Rightarrow> Piece list" where
  "boardPieces b = concat (map (\<lambda>row. concat (map (\<lambda>sq. case sq of None \<Rightarrow> [] | Some p \<Rightarrow> [p]) row)) b)"

definition insufficient :: "Piece list \<Rightarrow> bool" where
  "insufficient pieces =
     (length pieces = 2
      \<or> length pieces = 3
        \<and> (case filter (\<lambda>p. type p \<noteq> King) pieces of
             [] \<Rightarrow> False
           | nonKing # _ \<Rightarrow> type nonKing = Bishop \<or> type nonKing = Knight))"

definition statusOf :: "GameState \<Rightarrow> LegalMove list \<Rightarrow> GameStatus" where
  "statusOf s moves =
     (if length moves = 0
      then (if isInCheck (board s) (turn s)
            then (if turn s = White then checkmate_black else checkmate_white)
            else stalemate)
      else if halfmoveClock s \<ge> 100 then draw_50
      else if insufficient (boardPieces (board s)) then draw_insufficient
      else playing)"

definition getGameStatus :: "nat \<Rightarrow> GameState \<Rightarrow> (error + GameStatus) option" where
  "getGameStatus n s =
     (case getLegalMoves n s of
        None \<Rightarrow> None
      | Some (Inl e) \<Rightarrow> Some (Inl e)
      | Some (Inr moves) \<Rightarrow> Some (Inr (statusOf s moves)))"

text \<open>
  \<open>makeMove\<close> answers \<open>null\<close> (\<open>Inr None\<close>) when no legal move has the action string, and
  otherwise applies the first move that has it, rebuilt from its two square names.
\<close>

definition rawOf :: "LegalMove \<Rightarrow> RawMove" where
  "rawOf move =
     (case sqToRC (from_sq move) of (fR, fC) \<Rightarrow>
        (case sqToRC (to_sq move) of (tR, tC) \<Rightarrow> mkMove fR fC tR tC (promo move)))"

definition makeMove :: "nat \<Rightarrow> GameState \<Rightarrow> string \<Rightarrow> (error + (GameState \<times> LegalMove) option) option" where
  "makeMove n s u =
     (case getLegalMoves n s of
        None \<Rightarrow> None
      | Some (Inl e) \<Rightarrow> Some (Inl e)
      | Some (Inr legalMoves) \<Rightarrow>
          (case find (\<lambda>m. uci m = u) legalMoves of
             None \<Rightarrow> Some (Inr None)
           | Some move \<Rightarrow>
               (case applyRawMove s (rawOf move) of
                  Inl e \<Rightarrow> Some (Inl e)
                | Inr newState \<Rightarrow> Some (Inr (Some (newState, move))))))"

section \<open>Structural validity and the positions used as examples\<close>

text \<open>A structurally valid state has a board of eight rows of eight squares.\<close>

definition validBoard :: "Board \<Rightarrow> bool" where
  "validBoard b \<longleftrightarrow> length b = 8 \<and> list_all (\<lambda>row. length row = 8) b"

definition validState :: "GameState \<Rightarrow> bool" where
  "validState s \<longleftrightarrow> validBoard (board s)"

text \<open>\<open>rightsLe new old\<close>: every castling right set in \<open>new\<close> is set in \<open>old\<close>.\<close>

definition rightsLe :: "CastlingRights \<Rightarrow> CastlingRights \<Rightarrow> bool" where
  "rightsLe new old \<longleftrightarrow>
     (castK new \<longrightarrow> castK old) \<and> (castQ new \<longrightarrow> castQ old) \<and>
     (castk new \<longrightarrow> castk old) \<and> (castq new \<longrightarrow> castq old)"

definition pc :: "PieceColor \<Rightarrow> PieceType \<Rightarrow> Square" where
  "pc c t = Some \<lparr>color = c, type = t\<rparr>"

definition emptyRow :: "Square list" where
  "emptyRow = [None, None, None, None, None, None, None, None]"

text \<open>\<open>4k3/8/8/8/8/8/8/4K2R w K - 0 1\<close>\<close>

definition rookEnding :: GameState where
  "rookEnding =
     \<lparr>board = [[None, None, None, None, pc Black King, None, None, None],
               emptyRow, emptyRow, emptyRow, emptyRow, emptyRow, emptyRow,
               [None, None, None, None, pc White King, None, None, pc White Rook]],
      turn = White,
      castling = \<lparr>castK = True, castQ = False, castk = False, castq = False\<rparr>,
      enPassant = None, halfmoveClock = 0, fullmoveNumber = 1\<rparr>"

text \<open>\<open>rookEnding\<close> after the rook has gone from h1 to h2.\<close>

definition rookEndingRh2 :: GameState where
  "rookEndingRh2 =
     \<lparr>board = [[None, None, None, None, pc Black King, None, None, None],
               emptyRow, emptyRow, emptyRow, emptyRow, emptyRow,
               [None, None, None, None, None, None, None, pc White Rook],
               [None, None, None, None, pc White King, None, None, None]],
      turn = Black,
      castling = \<lparr>castK = False, castQ = False, castk = False, castq = False\<rparr>,
      enPassant = None, halfmoveClock = 1, fullmoveNumber = 1\<rparr>"

text \<open>The test of the legality filter on one move, for moves that can be applied.\<close>

definition keepsKing :: "GameState \<Rightarrow> RawMove \<Rightarrow> bool" where
  "keepsKing s m =
     (case applyRawMove s m of
        Inl e \<Rightarrow> False
      | Inr next \<Rightarrow> \<not> isInCheck (board next) (turn s))"

text \<open>The action strings of the fifteen legal moves of \<open>rookEnding\<close>, in the order of the engine.\<close>

definition rookEndingUcis :: "string list" where
  "rookEndingUcis =
     [''e1d2'', ''e1e2'', ''e1f2'', ''e1d1'', ''e1f1'', ''e1g1'', ''h1h2'', ''h1h3'',
      ''h1h4'', ''h1h5'', ''h1h6'', ''h1h7'', ''h1h8'', ''h1g1'', ''h1f1'']"

section \<open>The status decision as the specification words it\<close>

text \<open>
  The invariant of the specification's data model: exactly one king per side.
\<close>

definition kingCount :: "Board \<Rightarrow> PieceColor \<Rightarrow> nat" where
  "kingCount b col = length (filter (\<lambda>p. color p = col \<and> type p = King) (boardPieces b))"

definition oneKingEach :: "GameState \<Rightarrow> bool" where
  "oneKingEach s \<longleftrightarrow> kingCount (board s) White = 1 \<and> kingCount (board s) Black = 1"

text \<open>
  Written from the specification, to be compared with \<open>statusOf\<close>: the total piece count
  is 2, or it is 3 and the sole non-king piece is a bishop or a knight.
\<close>

definition specInsufficient :: "Piece list \<Rightarrow> bool" where
  "specInsufficient pieces \<longleftrightarrow>
     length pieces = 2
     \<or> (length pieces = 3
        \<and> (case filter (\<lambda>p. type p \<noteq> King) pieces of
             [p] \<Rightarrow> type p = Bishop \<or> type p = Knight
           | _ \<Rightarrow> False))"

text \<open>
  Written from the specification: the decision order on the legal-move count \<open>k\<close>.
\<close>

definition specStatus :: "GameState \<Rightarrow> nat \<Rightarrow> GameStatus" where
  "specStatus s k =
     (if k = 0
      then (if isInCheck (board s) (turn s)
            then (if turn s = White then checkmate_black else checkmate_white)
            else stalemate)
      else if 100 \<le> halfmoveClock s then draw_50
      else if specInsufficient (boardPieces (board s)) then draw_insufficient
      else playing)"

text \<open>
  \<open>4k3/8/8/8/8/8/5K2/7R w K - 0 1\<close>: the white king stands on f2, beside g1, and the
  kingside right is set.
\<close>

definition kingBesideG1 :: GameState where
  "kingBesideG1 =
     \<lparr>board = [[None, None, None, None, pc Black King, None, None, None],
               emptyRow, emptyRow, emptyRow, emptyRow, emptyRow,
               [None, None, None, None, None, pc White King, None, None],
               [None, None, None, None, None, None, None, pc White Rook]],
      turn = White,
      castling = \<lparr>castK = True, castQ = False, castk = False, castq = False\<rparr>,
      enPassant = None, halfmoveClock = 0, fullmoveNumber = 1\<rparr>"

text \<open>
  \<open>4r1k1/8/8/8/8/8/4K3/7R w K - 0 1\<close>: the white king stands on e2, attacked by the
  rook on e8, and the kingside right is set.
\<close>

definition kingOffHome :: GameState where
  "kingOffHome =
     \<lparr>board = [[None, None, None, None, pc Black Rook, None, pc Black King, None],
               emptyRow, emptyRow, emptyRow, emptyRow, emptyRow,
               [None, None, None, None, pc White King, None, None, None],
               [None, None, None, None, None, None, None, pc White Rook]],
      turn = White,
      castling = \<lparr>castK = True, castQ = False, castk = False, castq = False\<rparr>,
      enPassant = None, halfmoveClock = 0, fullmoveNumber = 1\<rparr>"

text \<open>
  The castling rights of the side to move are consistent with the board when, if one of
  them is set, every king of that side stands on its home square (file e of the home
  rank), which is where the castling tests of the generator look.
\<close>

definition homeRow :: "PieceColor \<Rightarrow> int" where
  "homeRow trn = (if trn = White then 7 else 0)"

definition hasCastlingRight :: "GameState \<Rightarrow> bool" where
  "hasCastlingRight s =
     (if turn s = White then castK (castling s) \<or> castQ (castling s)
      else castk (castling s) \<or> castq (castling s))"

definition castlingConsistent :: "GameState \<Rightarrow> bool" where
  "castlingConsistent s \<longleftrightarrow>
     \<not> hasCastlingRight s
     \<or> list_all (\<lambda>(r, c). \<not> pieceIs (boardAt (board s) r c) (turn s) [King]
                          \<or> (r = homeRow (turn s) \<and> c = 4)) squares"

section \<open>Castling as the specification words it\<close>

text \<open>
  Written from the specification, to be compared with \<open>castlingMoves\<close>: castling on one
  wing by the king standing on \<open>(kr, kc)\<close> is allowed when (a) the corresponding right is
  set, (b) all squares strictly between the king's and the rook's home squares are
  empty, (c) a rook of the side stands on its home square, and (d) none of the king's
  origin square, its transit square and its destination square is attacked by the
  opponent.
\<close>

definition wingRight :: "GameState \<Rightarrow> bool \<Rightarrow> bool" where
  "wingRight s kingside =
     (if turn s = White
      then (if kingside then castK (castling s) else castQ (castling s))
      else (if kingside then castk (castling s) else castq (castling s)))"

definition castleDest :: "bool \<Rightarrow> int" where
  "castleDest kingside = (if kingside then 6 else 2)"

definition specCastlingAllowed :: "GameState \<Rightarrow> int \<Rightarrow> int \<Rightarrow> bool \<Rightarrow> bool" where
  "specCastlingAllowed s kr kc kingside \<longleftrightarrow>
     (let b = board s; row = homeRow (turn s); enemy = enemyOf (turn s) in
      wingRight s kingside
      \<and> list_all (\<lambda>f. boardAt b row f = None) (if kingside then [5, 6] else [1, 2, 3])
      \<and> boardAt b row (if kingside then 7 else 0) = Some \<lparr>color = turn s, type = Rook\<rparr>
      \<and> \<not> isAttackedBy b kr kc enemy
      \<and> \<not> isAttackedBy b row (if kingside then 5 else 3) enemy
      \<and> \<not> isAttackedBy b row (castleDest kingside) enemy)"



section \<open>The position codec\<close>

text \<open>
  \<open>String.prototype.split\<close> with a one-character separator: the pieces between the
  separators, empty pieces included; the result is never empty.
\<close>

fun splitOn :: "char \<Rightarrow> string \<Rightarrow> string list" where
  "splitOn sep [] = [[]]"
| "splitOn sep (x # xs) =
     (if x = sep then [] # splitOn sep xs
      else (case splitOn sep xs of [] \<Rightarrow> [[x]] | y # ys \<Rightarrow> (x # y) # ys))"

text \<open>
  \<open>parseInt\<close> without radix, on ASCII text: leading white space is skipped, then an
  optional sign, then \<open>0x\<close> or \<open>0X\<close> selects radix 16; the longest prefix of digits is
  the value, and no digit at all gives \<open>NaN\<close>, here \<open>None\<close>. The \<open>number\<close> is taken to be
  exact, as it is in JavaScript below \<open>2 ^ 53\<close>; above, JavaScript rounds to a double.
\<close>

definition digitVal :: "char \<Rightarrow> nat option" where
  "digitVal ch =
     (let n = of_char ch :: nat in
      if 48 \<le> n \<and> n \<le> 57 then Some (n - 48)
      else if 97 \<le> n \<and> n \<le> 102 then Some (n - 87)
      else if 65 \<le> n \<and> n \<le> 70 then Some (n - 55)
      else None)"

fun parseDigits :: "nat \<Rightarrow> string \<Rightarrow> nat option \<Rightarrow> nat option" where
  "parseDigits radix [] acc = acc"
| "parseDigits radix (ch # cs) acc =
     (case digitVal ch of
        None \<Rightarrow> acc
      | Some d \<Rightarrow>
          if d < radix
          then parseDigits radix cs (Some ((case acc of None \<Rightarrow> 0 | Some a \<Rightarrow> a) * radix + d))
          else acc)"

definition isSpace :: "char \<Rightarrow> bool" where
  "isSpace ch \<longleftrightarrow> (of_char ch :: nat) \<in> {9, 10, 11, 12, 13, 32}"

definition parseUnsigned :: "string \<Rightarrow> nat option" where
  "parseUnsigned s =
     (case s of
        c0 # x # rest \<Rightarrow>
          if c0 = CHR ''0'' \<and> (x = CHR ''x'' \<or> x = CHR ''X'') then parseDigits 16 rest None
          else parseDigits 10 s None
      | _ \<Rightarrow> parseDigits 10 s None)"

definition parseInt :: "string \<Rightarrow> int option" where
  "parseInt str =
     (case dropWhile isSpace str of
        [] \<Rightarrow> None
      | ch # cs \<Rightarrow>
          if ch = CHR ''-'' then map_option (\<lambda>n. - int n) (parseUnsigned cs)
          else if ch = CHR ''+'' then map_option int (parseUnsigned cs)
          else map_option int (parseUnsigned (ch # cs)))"

text \<open>
  One character of the piece placement that is no digit from 1 to 8: the colour is
  white when the character is its own upper case, the kind is its lower case. For a
  character outside \<open>pnbrqkPNBRQK\<close> the source stores a kind that is no \<open>PieceType\<close>;
  that is \<open>None\<close> here.
\<close>

definition pieceOfChar :: "char \<Rightarrow> Piece option" where
  "pieceOfChar ch =
     (if ch = CHR ''P'' then Some \<lparr>color = White, type = Pawn\<rparr>
      else if ch = CHR ''N'' then Some \<lparr>color = White, type = Knight\<rparr>
      else if ch = CHR ''B'' then Some \<lparr>color = White, type = Bishop\<rparr>
      else if ch = CHR ''R'' then Some \<lparr>color = White, type = Rook\<rparr>
      else if ch = CHR ''Q'' then Some \<lparr>color = White, type = Queen\<rparr>
      else if ch = CHR ''K'' then Some \<lparr>color = White, type = King\<rparr>
      else if ch = CHR ''p'' then Some \<lparr>color = Black, type = Pawn\<rparr>
      else if ch = CHR ''n'' then Some \<lparr>color = Black, type = Knight\<rparr>
      else if ch = CHR ''b'' then Some \<lparr>color = Black, type = Bishop\<rparr>
      else if ch = CHR ''r'' then Some \<lparr>color = Black, type = Rook\<rparr>
      else if ch = CHR ''q'' then Some \<lparr>color = Black, type = Queen\<rparr>
      else if ch = CHR ''k'' then Some \<lparr>color = Black, type = King\<rparr>
      else None)"

definition emptyRun :: "char \<Rightarrow> nat option" where
  "emptyRun ch =
     (let n = of_char ch :: nat in if 49 \<le> n \<and> n \<le> 56 then Some (n - 48) else None)"

fun decodeRow :: "string \<Rightarrow> Square list option" where
  "decodeRow [] = Some []"
| "decodeRow (ch # cs) =
     (case emptyRun ch of
        Some n \<Rightarrow> map_option (\<lambda>row. replicate n None @ row) (decodeRow cs)
      | None \<Rightarrow>
          (case pieceOfChar ch of
             None \<Rightarrow> None
           | Some p \<Rightarrow> map_option (\<lambda>row. Some p # row) (decodeRow cs)))"

fun allSome :: "'a option list \<Rightarrow> 'a list option" where
  "allSome [] = Some []"
| "allSome (x # xs) =
     (case x of None \<Rightarrow> None
      | Some v \<Rightarrow> (case allSome xs of None \<Rightarrow> None | Some vs \<Rightarrow> Some (v # vs)))"

text \<open>
  The three outcomes of \<open>parseFEN\<close>: it throws (the only error the source can raise is
  the \<open>TypeError\<close> of reading through \<open>undefined\<close>); it returns a \<open>GameState\<close>; or it
  returns, without any error, an object that is no \<open>GameState\<close> of the declared type
  (a piece letter outside \<open>pnbrqk\<close>, a side that is neither \<open>w\<close> nor \<open>b\<close>, an
  \<open>undefined\<close> en-passant field, a clock that is \<open>NaN\<close>).
\<close>

datatype parse_result = ParseThrows error | ParseReturns GameState | ParseReturnsOther

definition turnOf :: "string \<Rightarrow> PieceColor option" where
  "turnOf t = (if t = ''w'' then Some White else if t = ''b'' then Some Black else None)"

definition parseFEN :: "string \<Rightarrow> parse_result" where
  "parseFEN fen =
     (let parts = splitOn CHR '' '' fen;
          rows = splitOn CHR ''/'' (parts ! 0)
      in if length rows < 8 then ParseThrows TypeError
         else if length parts < 3 then ParseThrows TypeError
         else
           (case allSome (map decodeRow (take 8 rows)) of
              None \<Rightarrow> ParseReturnsOther
            | Some b \<Rightarrow>
               (case turnOf (parts ! 1) of
                  None \<Rightarrow> ParseReturnsOther
                | Some trn \<Rightarrow>
                   if length parts < 6 then ParseReturnsOther
                   else
                     (case (parseInt (parts ! 4), parseInt (parts ! 5)) of
                        (Some h, Some f) \<Rightarrow>
                          ParseReturns
                            \<lparr>board = b, turn = trn,
                             castling = \<lparr>castK = CHR ''K'' \<in> set (parts ! 2),
                                         castQ = CHR ''Q'' \<in> set (parts ! 2),
                                         castk = CHR ''k'' \<in> set (parts ! 2),
                                         castq = CHR ''q'' \<in> set (parts ! 2)\<rparr>,
                             enPassant = (if parts ! 3 = ''-'' then None else Some (parts ! 3)),
                             halfmoveClock = h, fullmoveNumber = f\<rparr>
                      | _ \<Rightarrow> ParseReturnsOther))))"

text \<open>Decimal text of a clock, as string interpolation writes an integer.\<close>

fun showNat :: "nat \<Rightarrow> string" where
  "showNat n = (if n < 10 then [''0123456789'' ! n]
                else showNat (n div 10) @ [''0123456789'' ! (n mod 10)])"

declare showNat.simps [simp del]

definition showInt :: "int \<Rightarrow> string" where
  "showInt i = (if i < 0 then CHR ''-'' # showNat (nat (- i)) else showNat (nat i))"

definition pieceChar :: "Piece \<Rightarrow> char" where
  "pieceChar p = (if color p = White then upperLetter (type p) else typeLetter (type p))"

fun encodeRow :: "Square list \<Rightarrow> nat \<Rightarrow> string" where
  "encodeRow [] e = (if e > 0 then showNat e else [])"
| "encodeRow (None # cells) e = encodeRow cells (e + 1)"
| "encodeRow (Some p # cells) e =
     (if e > 0 then showNat e else []) @ pieceChar p # encodeRow cells 0"

definition rowCells :: "Board \<Rightarrow> int \<Rightarrow> Square list" where
  "rowCells b r = map (boardAt b r) [0, 1, 2, 3, 4, 5, 6, 7]"

fun joinWith :: "char \<Rightarrow> string list \<Rightarrow> string" where
  "joinWith sep [] = []"
| "joinWith sep [x] = x"
| "joinWith sep (x # y # ys) = x @ sep # joinWith sep (y # ys)"

definition castleStr :: "CastlingRights \<Rightarrow> string" where
  "castleStr cr =
     (let str = (if castK cr then ''K'' else []) @ (if castQ cr then ''Q'' else [])
                @ (if castk cr then ''k'' else []) @ (if castq cr then ''q'' else [])
      in if str = [] then ''-'' else str)"

definition colorStr :: "PieceColor \<Rightarrow> string" where
  "colorStr c = (if c = White then ''w'' else ''b'')"

text \<open>
  \<open>toFEN\<close> reads \<open>state.board[r][c]\<close> for the rows and columns 0 to 7 and throws on a
  board with fewer than eight rows.
\<close>

definition toFEN :: "GameState \<Rightarrow> error + string" where
  "toFEN s =
     (if length (board s) < 8 then Inl TypeError
      else Inr (joinWith CHR ''/'' (map (\<lambda>r. encodeRow (rowCells (board s) r) 0)
                                        [0, 1, 2, 3, 4, 5, 6, 7])
                @ '' '' @ colorStr (turn s) @ '' '' @ castleStr (castling s) @ '' ''
                @ (case enPassant s of None \<Rightarrow> ''-'' | Some ep \<Rightarrow> if ep = [] then ''-'' else ep)
                @ '' '' @ showInt (halfmoveClock s) @ '' '' @ showInt (fullmoveNumber s)))"

definition STARTING_FEN :: string where
  "STARTING_FEN = ''rnbqkbnr/pppppppp/8/8/8/8/PPPPPPPP/RNBQKBNR w KQkq - 0 1''"

definition createGame :: parse_result where
  "createGame = parseFEN STARTING_FEN"

definition backRow :: "PieceColor \<Rightarrow> Square list" where
  "backRow c = [pc c Rook, pc c Knight, pc c Bishop, pc c Queen, pc c King, pc c Bishop,
                pc c Knight, pc c Rook]"

definition pawnRow :: "PieceColor \<Rightarrow> Square list" where
  "pawnRow c = [pc c Pawn, pc c Pawn, pc c Pawn, pc c Pawn, pc c Pawn, pc c Pawn, pc c Pawn,
                pc c Pawn]"

definition startState :: GameState where
  "startState =
     \<lparr>board = [backRow Black, pawnRow Black, emptyRow, emptyRow, emptyRow, emptyRow,
               pawnRow White, backRow White],
      turn = White,
      castling = \<lparr>castK = True, castQ = True, castk = True, castq = True\<rparr>,
      enPassant = None, halfmoveClock = 0, fullmoveNumber = 1\<rparr>"



section \<open>When the recursion of getLegalMoves ends\<close>

text \<open>
  \<open>generateSAN\<close> calls \<open>getLegalMoves\<close> again on the successor of a move exactly when
  the move is not written as castling and the side to move of the successor is in
  check. \<open>sanSuccessor\<close> is that successor, and \<open>settles n s\<close> says that from \<open>s\<close>
  every run of such successors is shorter than \<open>n\<close>. Both are defined from the move
  lists and the attack test alone.
\<close>

definition sanSuccessor :: "GameState \<Rightarrow> RawMove \<Rightarrow> GameState option" where
  "sanSuccessor s m =
     (case boardAt (board s) (fromR m) (fromC m) of
        None \<Rightarrow> None
      | Some p \<Rightarrow>
          if type p = King \<and> (toC m - fromC m = 2 \<or> fromC m - toC m = 2) then None
          else (case applyRawMove s m of
                  Inl e \<Rightarrow> None
                | Inr nxt \<Rightarrow> if isInCheck (board nxt) (turn nxt) then Some nxt else None))"

primrec settles :: "nat \<Rightarrow> GameState \<Rightarrow> bool" where
  "settles 0 = (\<lambda>s. False)"
| "settles (Suc n) =
     (\<lambda>s. case legalRaw s of
            Inl e \<Rightarrow> True
          | Inr raws \<Rightarrow>
              list_all (\<lambda>m. case sanSuccessor s m of None \<Rightarrow> True | Some nxt \<Rightarrow> settles n nxt)
                       raws)"

text \<open>
  \<open>8/8/8/8/8/8/8/1N2K2R w - - 0 1\<close>: three pieces, of which the first in board order is
  a knight and the last a rook. \<open>8/8/8/8/8/8/k7/K7 w - - 0 1\<close>: bare kings.
  \<open>7k/6Q1/6K1/8/8/8/8/8 b - - 0 1\<close>: Black is mated. \<open>7k/5Q2/6K1/8/8/8/8/8 b - - 0 1\<close>:
  Black is stalemated.
\<close>

definition knightRookState :: GameState where
  "knightRookState =
     \<lparr>board = [emptyRow, emptyRow, emptyRow, emptyRow, emptyRow, emptyRow, emptyRow,
               [None, pc White Knight, None, None, pc White King, None, None, pc White Rook]],
      turn = White,
      castling = \<lparr>castK = False, castQ = False, castk = False, castq = False\<rparr>,
      enPassant = None, halfmoveClock = 0, fullmoveNumber = 1\<rparr>"

definition bareKings :: GameState where
  "bareKings =
     \<lparr>board = [emptyRow, emptyRow, emptyRow, emptyRow, emptyRow, emptyRow,
               [pc Black King, None, None, None, None, None, None, None],
               [pc White King, None, None, None, None, None, None, None]],
      turn = White,
      castling = \<lparr>castK = False, castQ = False, castk = False, castq = False\<rparr>,
      enPassant = None, halfmoveClock = 0, fullmoveNumber = 1\<rparr>"

definition queenMate :: GameState where
  "queenMate =
     \<lparr>board = [[None, None, None, None, None, None, None, pc Black King],
               [None, None, None, None, None, None, pc White Queen, None],
               [None, None, None, None, None, None, pc White King, None],
               emptyRow, emptyRow, emptyRow, emptyRow, emptyRow],
      turn = Black,
      castling = \<lparr>castK = False, castQ = False, castk = False, castq = False\<rparr>,
      enPassant = None, halfmoveClock = 0, fullmoveNumber = 1\<rparr>"

definition queenStalemate :: GameState where
  "queenStalemate =
     \<lparr>board = [[None, None, None, None, None, None, None, pc Black King],
               [None, None, None, None, None, pc White Queen, None, None],
               [None, None, None, None, None, None, pc White King, None],
               emptyRow, emptyRow, emptyRow, emptyRow, emptyRow],
      turn = Black,
      castling = \<lparr>castK = False, castQ = False, castk = False, castq = False\<rparr>,
      enPassant = None, halfmoveClock = 0, fullmoveNumber = 1\<rparr>"



section \<open>The objects behind a state\<close>

text \<open>
  To say that a state is left unmodified, the objects of the source are put into a
  store: a state object holds references to its board array and to its castling
  object; a board array holds references to its row arrays. An address is an index
  into the list of the objects of its kind, and allocation appends to the list. Piece
  objects are never assigned to after their creation, so a row array holds them as
  values.
\<close>

record StateObj =
  boardRef :: nat
  turnF :: PieceColor
  castRef :: nat
  epF :: "string option"
  halfF :: int
  fullF :: int

record Store =
  rowArrays :: "Square list list"
  boardArrays :: "nat list list"
  castObjs :: "CastlingRights list"
  stateObjs :: "StateObj list"

definition readBoard :: "Store \<Rightarrow> nat \<Rightarrow> Board" where
  "readBoard h b = map (\<lambda>a. rowArrays h ! a) (boardArrays h ! b)"

definition readState :: "Store \<Rightarrow> nat \<Rightarrow> GameState" where
  "readState h ref =
     (let ob = stateObjs h ! ref in
      \<lparr>board = readBoard h (boardRef ob), turn = turnF ob, castling = castObjs h ! castRef ob,
       enPassant = epF ob, halfmoveClock = halfF ob, fullmoveNumber = fullF ob\<rparr>)"

text \<open>Every reference reachable from the state object \<open>ref\<close> points into the store.\<close>

definition wellFormed :: "Store \<Rightarrow> nat \<Rightarrow> bool" where
  "wellFormed h ref \<longleftrightarrow>
     ref < length (stateObjs h)
     \<and> boardRef (stateObjs h ! ref) < length (boardArrays h)
     \<and> castRef (stateObjs h ! ref) < length (castObjs h)
     \<and> list_all (\<lambda>a. a < length (rowArrays h)) (boardArrays h ! boardRef (stateObjs h ! ref))"

text \<open>
  \<open>cloneBoard\<close>: \<open>board.map((row) => row.map(...))\<close> makes one new row array for each
  row and a new board array of them. \<open>cloneState\<close> makes a new castling object and a
  new state object around the cloned board.
\<close>

definition cloneBoardH :: "Store \<Rightarrow> nat \<Rightarrow> Store \<times> nat" where
  "cloneBoardH h b =
     (let rows = readBoard h b; base = length (rowArrays h)
      in (h\<lparr>rowArrays := rowArrays h @ rows,
            boardArrays := boardArrays h @ [[base..<base + length rows]]\<rparr>,
          length (boardArrays h)))"

definition cloneStateH :: "Store \<Rightarrow> nat \<Rightarrow> Store \<times> nat" where
  "cloneStateH h ref =
     (let ob = stateObjs h ! ref in
      case cloneBoardH h (boardRef ob) of (h1, b') \<Rightarrow>
        (h1\<lparr>castObjs := castObjs h1 @ [castObjs h1 ! castRef ob],
             stateObjs := stateObjs h1 @ [ob\<lparr>boardRef := b', castRef := length (castObjs h1)\<rparr>]\<rparr>,
         length (stateObjs h1)))"

text \<open>\<open>board[r][c] = v\<close> through the board array \<open>b\<close>: the row array at \<open>board[r]\<close> is written.\<close>

definition writeCellH :: "Store \<Rightarrow> nat \<Rightarrow> int \<Rightarrow> int \<Rightarrow> Square \<Rightarrow> Store" where
  "writeCellH h b r c v =
     (let a = boardArrays h ! b ! nat r
      in h\<lparr>rowArrays := (rowArrays h)[a := rowSet (rowArrays h ! a) c v]\<rparr>)"

definition readCellH :: "Store \<Rightarrow> nat \<Rightarrow> int \<Rightarrow> int \<Rightarrow> Square" where
  "readCellH h b r c = boardAt (readBoard h b) r c"

text \<open>
  \<open>applyRawMove\<close> on the store, statement by statement: the clone, the reads of the
  moving piece and of the destination square through the clone, the writes into the
  rows of the clone (\<open>movedBoardH\<close>), into its castling object and into its fields;
  \<open>state.enPassant\<close> and \<open>state.turn\<close> are read from the argument \<open>ref\<close>. The result
  is the new store and the reference to the new state object.
\<close>

definition movedBoardH :: "Store \<Rightarrow> nat \<Rightarrow> string option \<Rightarrow> RawMove \<Rightarrow> Piece \<Rightarrow> Store" where
  "movedBoardH h b ep m mover =
     (let h1 = (if type mover = Pawn
                then (case epSquare ep of
                        None \<Rightarrow> h
                      | Some (epR, epC) \<Rightarrow>
                          if toR m = epR \<and> toC m = epC then writeCellH h b (fromR m) epC None else h)
                else h);
          h2 = writeCellH h1 b (toR m) (toC m)
                 (Some (case promotion m of
                          Some p \<Rightarrow> \<lparr>color = color mover, type = p\<rparr>
                        | None \<Rightarrow> mover));
          h3 = writeCellH h2 b (fromR m) (fromC m) None
      in if type mover = King
         then (if toC m - fromC m = 2
               then writeCellH (writeCellH h3 b (fromR m) 5 (readCellH h3 b (fromR m) 7)) b (fromR m) 7 None
               else if fromC m - toC m = 2
               then writeCellH (writeCellH h3 b (fromR m) 3 (readCellH h3 b (fromR m) 0)) b (fromR m) 0 None
               else h3)
         else h3)"

definition movedStateH :: "Store \<Rightarrow> nat \<Rightarrow> nat \<Rightarrow> RawMove \<Rightarrow> Piece \<Rightarrow> Square \<Rightarrow> Store" where
  "movedStateH h ref nref m mover taken =
     (let nx = stateObjs h ! nref;
          old = stateObjs h ! ref;
          h1 = movedBoardH h (boardRef nx) (epF old) m mover;
          h2 = h1\<lparr>castObjs := (castObjs h1)[castRef nx :=
                    updateCastling (castObjs h1 ! castRef nx) mover taken m]\<rparr>
      in h2\<lparr>stateObjs := (stateObjs h2)[nref :=
              nx\<lparr>epF := (if type mover = Pawn \<and> \<bar>toR m - fromR m\<bar> = 2
                           then Some (rcToSq ((fromR m + toR m) div 2) (fromC m)) else None),
                 halfF := (if type mover = Pawn \<or> taken \<noteq> None then 0 else halfF nx + 1),
                 fullF := (if turnF old = Black then fullF nx + 1 else fullF nx),
                 turnF := (if turnF old = White then Black else White)\<rparr>]\<rparr>)"

definition applyRawMoveH :: "Store \<Rightarrow> nat \<Rightarrow> RawMove \<Rightarrow> error + Store \<times> nat" where
  "applyRawMoveH h ref m =
     (case cloneStateH h ref of (h1, nref) \<Rightarrow>
      let b = boardRef (stateObjs h1 ! nref) in
      if \<not> rowOk (readBoard h1 b) (fromR m) \<or> \<not> rowOk (readBoard h1 b) (toR m) then Inl TypeError
      else (case readCellH h1 b (fromR m) (fromC m) of
              None \<Rightarrow> Inl TypeError
            | Some mover \<Rightarrow>
                Inr (movedStateH h1 ref nref m mover (readCellH h1 b (toR m) (toC m)), nref)))"

text \<open>
  \<open>allocState h rows cr ob\<close> is the store \<open>h\<close> with one more board of the rows \<open>rows\<close>,
  one more castling object and one more state object around them; the proofs show that
  every store \<open>applyRawMove\<close> passes through has this form.
\<close>

definition allocState :: "Store \<Rightarrow> Board \<Rightarrow> CastlingRights \<Rightarrow> StateObj \<Rightarrow> Store" where
  "allocState h rows cr ob =
     h\<lparr>rowArrays := rowArrays h @ rows,
       boardArrays := boardArrays h @ [[length (rowArrays h)..<length (rowArrays h) + length rows]],
       castObjs := castObjs h @ [cr],
       stateObjs := stateObjs h @ [ob\<lparr>boardRef := length (boardArrays h), castRef := length (castObjs h)\<rparr>]\<rparr>"

text \<open>
  \<open>getLegalMoves\<close> on the store. It writes to no object itself, but each of its calls of
  \<open>applyRawMove\<close> allocates a clone, and so do the calls of \<open>generateSAN\<close> and the
  recursive calls; the store is passed from each call to the next, in the order of the
  source. What is read from the state (\<open>state.board[r][c]\<close>, \<open>state.turn\<close>,
  \<open>state.enPassant\<close>) is read from the store of that moment. As in the pure model,
  \<open>None\<close> says that the call did not return within the fuel.
\<close>

fun legalFilterH :: "Store \<Rightarrow> nat \<Rightarrow> RawMove list \<Rightarrow> error + Store \<times> RawMove list" where
  "legalFilterH h ref [] = Inr (h, [])"
| "legalFilterH h ref (m # ms) =
     (case applyRawMoveH h ref m of
        Inl e \<Rightarrow> Inl e
      | Inr (h1, nref) \<Rightarrow>
          (let keep = \<not> isInCheck (board (readState h1 nref)) (turn (readState h1 ref)) in
           case legalFilterH h1 ref ms of
             Inl e \<Rightarrow> Inl e
           | Inr (h2, rest) \<Rightarrow> Inr (h2, if keep then m # rest else rest)))"

definition checkSuffixH ::
  "(Store \<Rightarrow> nat \<Rightarrow> (error + Store \<times> LegalMove list) option) \<Rightarrow> Store \<Rightarrow> nat \<Rightarrow> RawMove
     \<Rightarrow> (error + Store \<times> string) option" where
  "checkSuffixH glm h ref move =
     (case applyRawMoveH h ref move of
        Inl e \<Rightarrow> Some (Inl e)
      | Inr (h1, nref) \<Rightarrow>
          if isInCheck (board (readState h1 nref)) (turn (readState h1 nref))
          then (case glm h1 nref of
                  None \<Rightarrow> None
                | Some (Inl e) \<Rightarrow> Some (Inl e)
                | Some (Inr (h2, nextMoves)) \<Rightarrow>
                    Some (Inr (h2, if length nextMoves = 0 then ''#'' else ''+'')))
          else Some (Inr (h1, [])))"

definition generateSANH ::
  "(Store \<Rightarrow> nat \<Rightarrow> (error + Store \<times> LegalMove list) option) \<Rightarrow> Store \<Rightarrow> nat \<Rightarrow> nat
     \<Rightarrow> RawMove list \<Rightarrow> (error + Store \<times> string) option" where
  "generateSANH glm h ref i allMoves =
     (let s = readState h ref; move = allMoves ! i in
      case boardAt (board s) (fromR move) (fromC move) of
        None \<Rightarrow> Some (Inl TypeError)
      | Some mover \<Rightarrow>
         (let capt = boardAt (board s) (toR move) (toC move);
              toSq = rcToSq (toR move) (toC move)
          in if type mover = King \<and> toC move - fromC move = 2 then Some (Inr (h, ''O-O''))
             else if type mover = King \<and> fromC move - toC move = 2 then Some (Inr (h, ''O-O-O''))
             else
               (let body =
                  (if type mover = Pawn
                   then (if capt \<noteq> None
                            \<or> (case enPassant s of None \<Rightarrow> False
                                | Some ep \<Rightarrow> ep \<noteq> [] \<and> toSq = ep)
                         then strAt FILES (fromC move) @ ''x'' else [])
                        @ toSq
                        @ (case promotion move of None \<Rightarrow> [] | Some p \<Rightarrow> ''='' @ [upperLetter p])
                   else [upperLetter (type mover)] @ disambiguation s mover i allMoves
                        @ (if capt \<noteq> None then ''x'' else []) @ toSq)
                in case checkSuffixH glm h ref move of
                     None \<Rightarrow> None
                   | Some (Inl e) \<Rightarrow> Some (Inl e)
                   | Some (Inr (h1, suffix)) \<Rightarrow> Some (Inr (h1, body @ suffix)))))"

definition toLegalMoveH ::
  "(Store \<Rightarrow> nat \<Rightarrow> (error + Store \<times> LegalMove list) option) \<Rightarrow> nat \<Rightarrow> RawMove list \<Rightarrow> nat
     \<Rightarrow> Store \<Rightarrow> (error + Store \<times> LegalMove) option" where
  "toLegalMoveH glm ref raws i h =
     (let s = readState h ref; move = raws ! i in
      case boardAt (board s) (fromR move) (fromC move) of
        None \<Rightarrow> Some (Inl TypeError)
      | Some mover \<Rightarrow>
          (case generateSANH glm h ref i raws of
             None \<Rightarrow> None
           | Some (Inl e) \<Rightarrow> Some (Inl e)
           | Some (Inr (h1, sn)) \<Rightarrow>
               Some (Inr (h1, \<lparr>from_sq = rcToSq (fromR move) (fromC move),
                               to_sq = rcToSq (toR move) (toC move),
                               uci = uciOf move,
                               san = sn,
                               piece = type mover,
                               captured = capturedType s mover move,
                               promo = promotion move\<rparr>))))"

text \<open>\<open>Array.prototype.map\<close> on the store: each callback starts in the store the one
  before it left.\<close>

fun sequenceH ::
  "(Store \<Rightarrow> (error + Store \<times> 'a) option) list \<Rightarrow> Store \<Rightarrow> (error + Store \<times> 'a list) option" where
  "sequenceH [] h = Some (Inr (h, []))"
| "sequenceH (f # fs) h =
     (case f h of
        None \<Rightarrow> None
      | Some (Inl e) \<Rightarrow> Some (Inl e)
      | Some (Inr (h1, v)) \<Rightarrow>
          (case sequenceH fs h1 of
             None \<Rightarrow> None
           | Some (Inl e) \<Rightarrow> Some (Inl e)
           | Some (Inr (h2, vs)) \<Rightarrow> Some (Inr (h2, v # vs))))"

definition getLegalMovesBodyH ::
  "(Store \<Rightarrow> nat \<Rightarrow> (error + Store \<times> LegalMove list) option) \<Rightarrow> Store \<Rightarrow> nat
     \<Rightarrow> (error + Store \<times> LegalMove list) option" where
  "getLegalMovesBodyH glm h ref =
     (case generatePseudoLegalMoves (readState h ref) of
        Inl e \<Rightarrow> Some (Inl e)
      | Inr pseudoMoves \<Rightarrow>
          (case legalFilterH h ref pseudoMoves of
             Inl e \<Rightarrow> Some (Inl e)
           | Inr (h1, raws) \<Rightarrow> sequenceH (map (toLegalMoveH glm ref raws) [0..<length raws]) h1))"

primrec getLegalMovesH :: "nat \<Rightarrow> Store \<Rightarrow> nat \<Rightarrow> (error + Store \<times> LegalMove list) option" where
  "getLegalMovesH 0 = (\<lambda>h ref. None)"
| "getLegalMovesH (Suc n) = getLegalMovesBodyH (getLegalMovesH n)"

text \<open>
  \<open>makeMove\<close> on the store: the store \<open>getLegalMoves\<close> left, \<open>null\<close> when no move has the
  action string, otherwise the reference to the state object \<open>applyRawMove\<close> made.
\<close>

definition makeMoveH ::
  "nat \<Rightarrow> Store \<Rightarrow> nat \<Rightarrow> string \<Rightarrow> (error + Store \<times> (nat \<times> LegalMove) option) option" where
  "makeMoveH n h ref u =
     (case getLegalMovesH n h ref of
        None \<Rightarrow> None
      | Some (Inl e) \<Rightarrow> Some (Inl e)
      | Some (Inr (h1, legalMoves)) \<Rightarrow>
          (case find (\<lambda>m. uci m = u) legalMoves of
             None \<Rightarrow> Some (Inr (h1, None))
           | Some move \<Rightarrow>
               (case applyRawMoveH h1 ref (rawOf move) of
                  Inl e \<Rightarrow> Some (Inl e)
                | Inr (h2, nref) \<Rightarrow> Some (Inr (h2, Some (nref, move))))))"

text \<open>\<open>unchanged h h'\<close>: every object of the store \<open>h\<close> is in \<open>h'\<close> at its address, as it was.\<close>

definition unchanged :: "Store \<Rightarrow> Store \<Rightarrow> bool" where
  "unchanged h h' \<longleftrightarrow>
     take (length (rowArrays h)) (rowArrays h') = rowArrays h
     \<and> take (length (boardArrays h)) (boardArrays h') = boardArrays h
     \<and> take (length (castObjs h)) (castObjs h') = castObjs h
     \<and> take (length (stateObjs h)) (stateObjs h') = stateObjs h"

text \<open>
  \<open>sameResult h x y\<close>: the outcome \<open>x\<close> of an operation on the store \<open>h\<close> is the outcome
  \<open>y\<close> of the pure operation (no return, the same error, the same value), and the
  store it leaves has every object of \<open>h\<close> unchanged.
\<close>

definition sameResult :: "Store \<Rightarrow> (error + Store \<times> 'a) option \<Rightarrow> (error + 'a) option \<Rightarrow> bool" where
  "sameResult h x y =
     (case y of
        None \<Rightarrow> x = None
      | Some (Inl e) \<Rightarrow> x = Some (Inl e)
      | Some (Inr v) \<Rightarrow> (case x of Some (Inr (h', w)) \<Rightarrow> w = v \<and> unchanged h h' | _ \<Rightarrow> False))"

text \<open>\<open>newIn h h' ref\<close>: the state object \<open>ref\<close> of \<open>h'\<close>, its board array, its row arrays
  and its castling object are none of the objects of \<open>h\<close>.\<close>

definition newIn :: "Store \<Rightarrow> Store \<Rightarrow> nat \<Rightarrow> bool" where
  "newIn h h' ref \<longleftrightarrow>
     length (stateObjs h) \<le> ref
     \<and> length (boardArrays h) \<le> boardRef (stateObjs h' ! ref)
     \<and> length (castObjs h) \<le> castRef (stateObjs h' ! ref)
     \<and> list_all (\<lambda>a. length (rowArrays h) \<le> a) (boardArrays h' ! boardRef (stateObjs h' ! ref))"

text \<open>The store that holds the one state \<open>s\<close>, at reference 0.\<close>

definition emptyStore :: Store where
  "emptyStore = \<lparr>rowArrays = [], boardArrays = [], castObjs = [], stateObjs = []\<rparr>"

definition storeOf :: "GameState \<Rightarrow> Store" where
  "storeOf s = allocState emptyStore (board s) (castling s)
                 \<lparr>boardRef = 0, turnF = turn s, castRef = 0, epF = enPassant s,
                  halfF = halfmoveClock s, fullF = fullmoveNumber s\<rparr>"

section \<open>Reachable states and the states the codec round-trips\<close>

text \<open>
  The states reachable by legal transitions from the starting position: what
  \<open>createGame\<close> returns, and every state \<open>makeMove\<close> returns from a reachable state.
\<close>

inductive reachable :: "GameState \<Rightarrow> bool" where
  start: "createGame = ParseReturns s \<Longrightarrow> reachable s"
| move: "reachable s \<Longrightarrow> makeMove n s u = Some (Inr (Some (s', lm))) \<Longrightarrow> reachable s'"

text \<open>
  \<open>codecState\<close>: a board of eight rows of eight squares, clocks that are not negative,
  and an en-passant field that is \<open>null\<close> or the name of a square of the board.
\<close>

definition squareName :: "string \<Rightarrow> bool" where
  "squareName sq \<longleftrightarrow> list_ex (\<lambda>(r, c). sq = rcToSq r c) squares"

definition codecState :: "GameState \<Rightarrow> bool" where
  "codecState s \<longleftrightarrow>
     validState s \<and> 0 \<le> halfmoveClock s \<and> 0 \<le> fullmoveNumber s
     \<and> (case enPassant s of None \<Rightarrow> True | Some sq \<Rightarrow> squareName sq)"

text \<open>The position after 1. e4 from the starting position, and its text.\<close>

definition afterE4 :: GameState where
  "afterE4 =
     \<lparr>board = [backRow Black, pawnRow Black, emptyRow, emptyRow,
               [None, None, None, None, pc White Pawn, None, None, None],
               emptyRow,
               [pc White Pawn, pc White Pawn, pc White Pawn, pc White Pawn, None, pc White Pawn,
                pc White Pawn, pc White Pawn],
               backRow White],
      turn = Black,
      castling = \<lparr>castK = True, castQ = True, castk = True, castq = True\<rparr>,
      enPassant = Some ''e3'', halfmoveClock = 0, fullmoveNumber = 1\<rparr>"

definition afterE4FEN :: string where
  "afterE4FEN = ''rnbqkbnr/pppppppp/8/8/4P3/8/PPPP1PPP/RNBQKBNR b KQkq e3 0 1''"

section \<open>The state transition\<close>

lemma applyRawMove_Inr:
  "applyRawMove s m = Inr s' \<Longrightarrow>
   \<exists>p. boardAt (board s) (fromR m) (fromC m) = Some p \<and> rowOk (board s) (fromR m)
       \<and> rowOk (board s) (toR m) \<and> s' = movedState s m p"
  by (auto simp: applyRawMove_def split: if_splits option.splits)

lemma updateCastling_rightsLe: "rightsLe (updateCastling cr p cap m) cr"
  by (simp add: updateCastling_def rightsLe_def Let_def)

lemma applyRawMove_rightsLe:
  assumes "applyRawMove s m = Inr s'"
  shows "rightsLe (castling s') (castling s)"
proof -
  from assms obtain p where "s' = movedState s m p"
    using applyRawMove_Inr by blast
  then have "castling s' = updateCastling (castling s) p (boardAt (board s) (toR m) (toC m)) m"
    by (simp add: movedState_def Let_def)
  then show ?thesis
    by (simp add: updateCastling_rightsLe)
qed

lemma makeMove_applies:
  "makeMove n s u = Some (Inr (Some (s', mv))) \<Longrightarrow> \<exists>m. applyRawMove s m = Inr s'"
  by (auto simp: makeMove_def split: option.splits sum.splits prod.splits)

text \<open>
  C8. Castling rights never come back: whenever \<open>applyRawMove\<close> returns a state, every
  right that is false before the move is false after it, for every state and every
  move; the same holds for \<open>makeMove\<close>, the only exported operation that produces a
  successor state.
\<close>

theorem castling_rights_non_increasing:
  "(applyRawMove s m = Inr s' \<longrightarrow> rightsLe (castling s') (castling s)) \<and>
   (makeMove n s u = Some (Inr (Some (s'', mv))) \<longrightarrow> rightsLe (castling s'') (castling s))"
  using applyRawMove_rightsLe makeMove_applies by blast

theorem castling_rights_non_increasing_witness:
  "applyRawMove rookEnding (mkMove 7 7 6 7 None) = Inr rookEndingRh2 \<and>
   rightsLe (castling rookEndingRh2) (castling rookEnding) \<and>
   (\<exists>mv. makeMove 2 rookEnding ''h1h2'' = Some (Inr (Some (rookEndingRh2, mv))))"
proof -
  have a: "applyRawMove rookEnding (mkMove 7 7 6 7 None) = Inr rookEndingRh2"
    by code_simp
  have b: "map_option (map_sum id (map_option fst)) (makeMove 2 rookEnding ''h1h2'')
           = Some (Inr (Some rookEndingRh2))"
    by code_simp
  then obtain mv where c: "makeMove 2 rookEnding ''h1h2'' = Some (Inr (Some (rookEndingRh2, mv)))"
    by (auto simp: map_option_case map_sum_def split: option.splits sum.splits)
  from castling_rights_non_increasing [of rookEnding "mkMove 7 7 6 7 None" rookEndingRh2
      2 "''h1h2''" rookEndingRh2 mv] a c
  show ?thesis by blast
qed

section \<open>Shape of the generated moves\<close>

lemma upto8: "[0, 1, 2, 3, 4, 5, 6, 7] = [0..7::int]"
  by (simp add: upto.simps)

lemma squares_iff: "(r, c) \<in> set squares \<longleftrightarrow> inBounds r c"
  unfolding squares_def upto8 by (auto simp: inBounds_def image_iff)

lemma stepMoves_props:
  "m \<in> set (stepMoves s r c offs) \<Longrightarrow>
   fromR m = r \<and> fromC m = c \<and> inBounds (toR m) (toC m) \<and> promotion m = None"
  by (auto simp: stepMoves_def mkMove_def split: if_splits)

lemma slideMoves_props:
  "m \<in> set (slideMoves b trn r c dr dc nr nc) \<Longrightarrow>
   fromR m = r \<and> fromC m = c \<and> inBounds (toR m) (toC m) \<and> promotion m = None"
proof (induction b trn r c dr dc nr nc rule: slideMoves.induct)
  case (1 b trn r c dr dc nr nc)
  show ?case
  proof (cases "inBounds nr nc \<and> (dr \<noteq> 0 \<or> dc \<noteq> 0)")
    case False
    with "1.prems" show ?thesis by (simp add: slideMoves.simps)
  next
    case True
    show ?thesis
    proof (cases "boardAt b nr nc")
      case None
      with True "1.prems" have "m = mkMove r c nr nc None \<or> m \<in> set (slideMoves b trn r c dr dc (nr + dr) (nc + dc))"
        by (subst (asm) slideMoves.simps) auto
      then show ?thesis
        using "1.IH" [OF True None] True by (auto simp: mkMove_def)
    next
      case (Some t)
      with True "1.prems" have "m = mkMove r c nr nc None"
        by (subst (asm) slideMoves.simps) (auto split: if_splits)
      then show ?thesis using True by (simp add: mkMove_def)
    qed
  qed
qed

lemma sliderMoves_props:
  "m \<in> set (sliderMoves s r c t) \<Longrightarrow>
   fromR m = r \<and> fromC m = c \<and> inBounds (toR m) (toC m) \<and> promotion m = None"
  unfolding sliderMoves_def using slideMoves_props by fastforce

lemma castleMove_props:
  "m \<in> set (castleMove s r c right row empties rookC transit dest) \<Longrightarrow> inBounds row dest \<Longrightarrow>
   fromR m = r \<and> fromC m = c \<and> inBounds (toR m) (toC m) \<and> promotion m = None"
  by (auto simp: castleMove_def mkMove_def Let_def split: if_splits)

lemma castlingMoves_props:
  "m \<in> set (castlingMoves s r c) \<Longrightarrow>
   fromR m = r \<and> fromC m = c \<and> inBounds (toR m) (toC m) \<and> promotion m = None"
  unfolding castlingMoves_def
  by (auto split: if_splits dest!: castleMove_props simp: inBounds_def)

lemma pawnArrives_props:
  "m \<in> set (pawnArrives trn r c tr tc) \<Longrightarrow>
   fromR m = r \<and> fromC m = c \<and> toR m = tr \<and> toC m = tc
   \<and> (promotion m = None \<or> promotion m \<in> Some ` set promoKinds)"
  by (auto simp: pawnArrives_def mkMove_def split: if_splits)

lemma pawnForward_props:
  "m \<in> set (pawnForward s r c) \<Longrightarrow> inBounds r c \<Longrightarrow>
   fromR m = r \<and> fromC m = c \<and> inBounds (toR m) (toC m) \<and> toR m \<noteq> r
   \<and> (promotion m = None \<or> promotion m \<in> Some ` set promoKinds)"
  unfolding pawnForward_def Let_def
  by (auto simp: mkMove_def inBounds_def pawnDir_def startRank_def split: if_splits
           dest!: pawnArrives_props)

lemma pawnCapture_props:
  "m \<in> set (pawnCapture s r c dc) \<Longrightarrow> inBounds r c \<Longrightarrow>
   fromR m = r \<and> fromC m = c \<and> inBounds (toR m) (toC m) \<and> toR m \<noteq> r
   \<and> (promotion m = None \<or> promotion m \<in> Some ` set promoKinds)"
  unfolding pawnCapture_def Let_def
  by (auto simp: mkMove_def pawnDir_def split: if_splits option.splits
           dest!: pawnArrives_props)

lemma pawnMoves_props:
  "m \<in> set (pawnMoves s r c) \<Longrightarrow> inBounds r c \<Longrightarrow>
   fromR m = r \<and> fromC m = c \<and> inBounds (toR m) (toC m) \<and> toR m \<noteq> r
   \<and> (promotion m = None \<or> promotion m \<in> Some ` set promoKinds)"
  unfolding pawnMoves_def using pawnForward_props pawnCapture_props by fastforce

lemma pieceMoves_props:
  "m \<in> set (pieceMoves s r c t) \<Longrightarrow> inBounds r c \<Longrightarrow>
   fromR m = r \<and> fromC m = c \<and> inBounds (toR m) (toC m)
   \<and> (promotion m = None \<or> promotion m \<in> Some ` set promoKinds)"
  unfolding pieceMoves_def
  by (cases t)
     (auto dest: pawnMoves_props stepMoves_props sliderMoves_props castlingMoves_props)

lemma movesFrom_props:
  assumes "m \<in> set (movesFrom s (r, c))" and "inBounds r c"
  shows "fromR m = r \<and> fromC m = c \<and> inBounds (toR m) (toC m)
         \<and> (promotion m = None \<or> promotion m \<in> Some ` set promoKinds)
         \<and> (\<exists>p. boardAt (board s) r c = Some p \<and> color p = turn s
                 \<and> m \<in> set (pieceMoves s r c (type p)))"
proof -
  from assms(1) obtain p where p: "boardAt (board s) r c = Some p" "color p = turn s"
      "m \<in> set (pieceMoves s r c (type p))"
    by (auto simp: movesFrom_def split: option.splits if_splits) metis
  with pieceMoves_props [OF p(3) assms(2)] show ?thesis by blast
qed

lemma pseudo_props:
  assumes "generatePseudoLegalMoves s = Inr ps" and "m \<in> set ps"
  shows "inBounds (fromR m) (fromC m) \<and> inBounds (toR m) (toC m)
         \<and> (promotion m = None \<or> promotion m \<in> Some ` set promoKinds)
         \<and> (\<exists>p. boardAt (board s) (fromR m) (fromC m) = Some p \<and> color p = turn s
                 \<and> m \<in> set (pieceMoves s (fromR m) (fromC m) (type p)))
         \<and> 8 \<le> length (board s)"
proof -
  from assms have len: "8 \<le> length (board s)" and "m \<in> set (concat (map (movesFrom s) squares))"
    by (auto simp: generatePseudoLegalMoves_def split: if_splits)
  then obtain r c where rc: "(r, c) \<in> set squares" "m \<in> set (movesFrom s (r, c))"
    by auto
  then have ib: "inBounds r c" by (simp add: squares_iff)
  from movesFrom_props [OF rc(2) ib] ib len show ?thesis by auto
qed

lemma pseudo_applies:
  assumes "generatePseudoLegalMoves s = Inr ps" and "m \<in> set ps"
  shows "\<exists>p. boardAt (board s) (fromR m) (fromC m) = Some p \<and> color p = turn s
             \<and> applyRawMove s m = Inr (movedState s m p)"
proof -
  from pseudo_props [OF assms] obtain p where
    p: "boardAt (board s) (fromR m) (fromC m) = Some p" "color p = turn s"
    and ib: "inBounds (fromR m) (fromC m)" "inBounds (toR m) (toC m)"
    and len: "8 \<le> length (board s)" by blast
  from ib len have "rowOk (board s) (fromR m)" "rowOk (board s) (toR m)"
    by (auto simp: rowOk_def inBounds_def)
  with p show ?thesis by (auto simp: applyRawMove_def)
qed

lemma legalFilter_filter:
  "\<forall>m \<in> set ps. \<exists>n. applyRawMove s m = Inr n \<Longrightarrow>
   legalFilter s ps = Inr (filter (keepsKing s) ps)"
  by (induction ps) (auto simp: keepsKing_def)

lemma legalRaw_filter:
  assumes "generatePseudoLegalMoves s = Inr ps"
  shows "legalRaw s = Inr (filter (keepsKing s) ps)"
proof -
  have "\<forall>m \<in> set ps. \<exists>n. applyRawMove s m = Inr n"
    using pseudo_applies [OF assms] by blast
  then show ?thesis
    by (simp add: legalRaw_def assms legalFilter_filter)
qed

lemma valid_generates:
  "validState s \<Longrightarrow> \<exists>ps. generatePseudoLegalMoves s = Inr ps"
  by (simp add: validState_def validBoard_def generatePseudoLegalMoves_def)

section \<open>Square names\<close>

lemma inBounds_cases:
  "inBounds r c \<Longrightarrow> r \<in> {0, 1, 2, 3, 4, 5, 6, 7} \<and> c \<in> {0, 1, 2, 3, 4, 5, 6, 7}"
  by (auto simp: inBounds_def)

lemma strAt_FILES:
  "0 \<le> c \<Longrightarrow> c < 8 \<Longrightarrow> \<exists>ch. strAt FILES c = [ch] \<and> indexOfFrom FILES ch 0 = c"
proof -
  assume "0 \<le> c" "c < 8"
  then have "c \<in> {0, 1, 2, 3, 4, 5, 6, 7}" by auto
  then show ?thesis by (auto simp: strAt_def FILES_def)
qed

lemma strAt_RANKS:
  "0 \<le> r \<Longrightarrow> r < 8 \<Longrightarrow> \<exists>ch. strAt RANKS r = [ch] \<and> indexOfFrom RANKS ch 0 = r"
proof -
  assume "0 \<le> r" "r < 8"
  then have "r \<in> {0, 1, 2, 3, 4, 5, 6, 7}" by auto
  then show ?thesis by (auto simp: strAt_def RANKS_def)
qed

lemma sqToRC_rcToSq: "inBounds r c \<Longrightarrow> sqToRC (rcToSq r c) = (r, c)"
proof -
  assume ib: "inBounds r c"
  then obtain f where f: "strAt FILES c = [f]" "indexOfFrom FILES f 0 = c"
    using strAt_FILES [of c] by (auto simp: inBounds_def)
  from ib obtain k where k: "strAt RANKS r = [k]" "indexOfFrom RANKS k 0 = r"
    using strAt_RANKS [of r] by (auto simp: inBounds_def)
  show ?thesis
    by (simp add: sqToRC_def rcToSq_def f k charAt_def indexOf_def)
qed

lemma rcToSq_length: "inBounds r c \<Longrightarrow> length (rcToSq r c) = 2"
  by (auto simp: rcToSq_def strAt_def inBounds_def FILES_def RANKS_def)

lemma rcToSq_inj:
  "inBounds r c \<Longrightarrow> inBounds r' c' \<Longrightarrow> rcToSq r c = rcToSq r' c' \<Longrightarrow> r = r' \<and> c = c'"
  by (metis sqToRC_rcToSq prod.inject)

section \<open>sequenceAll\<close>

lemma sequenceAll_Inr:
  "sequenceAll xs = Some (Inr vs) \<Longrightarrow> xs = map (\<lambda>v. Some (Inr v)) vs"
  by (induction xs arbitrary: vs) (auto split: option.splits sum.splits)

lemma sequenceAll_map: "sequenceAll (map (\<lambda>v. Some (Inr v)) vs) = Some (Inr vs)"
  by (induction vs) auto

section \<open>What getLegalMoves returns\<close>

lemma toLegalMove_fields:
  assumes "toLegalMove glm s raws i = Some (Inr lm)"
  shows "from_sq lm = rcToSq (fromR (raws ! i)) (fromC (raws ! i))
       \<and> to_sq lm = rcToSq (toR (raws ! i)) (toC (raws ! i))
       \<and> uci lm = uciOf (raws ! i) \<and> promo lm = promotion (raws ! i)
       \<and> (\<exists>p. boardAt (board s) (fromR (raws ! i)) (fromC (raws ! i)) = Some p
               \<and> piece lm = type p \<and> captured lm = capturedType s p (raws ! i))
       \<and> generateSAN glm s i raws = Some (Inr (san lm))"
  using assms
  by (auto simp: toLegalMove_def Let_def split: option.splits sum.splits)

lemma getLegalMoves_Inr:
  assumes "getLegalMoves n s = Some (Inr ms)"
  shows "\<exists>k raws. n = Suc k \<and> legalRaw s = Inr raws \<and> length ms = length raws
           \<and> (\<forall>i<length raws. toLegalMove (getLegalMoves k) s raws i = Some (Inr (ms ! i)))"
proof (cases n)
  case 0
  with assms show ?thesis by simp
next
  case (Suc k)
  with assms obtain raws where raws: "legalRaw s = Inr raws"
    and sq: "sequenceAll (map (toLegalMove (getLegalMoves k) s raws) [0..<length raws]) = Some (Inr ms)"
    by (auto simp: getLegalMovesBody_def split: sum.splits)
  from sequenceAll_Inr [OF sq]
  have eq: "map (toLegalMove (getLegalMoves k) s raws) [0..<length raws] = map (\<lambda>v. Some (Inr v)) ms" .
  then have len: "length ms = length raws"
    by (metis length_map length_upt minus_nat.diff_0)
  have "\<forall>i<length raws. toLegalMove (getLegalMoves k) s raws i = Some (Inr (ms ! i))"
  proof (intro allI impI)
    fix i assume i: "i < length raws"
    from eq have "map (toLegalMove (getLegalMoves k) s raws) [0..<length raws] ! i
                  = map (\<lambda>v. Some (Inr v)) ms ! i" by simp
    with i len show "toLegalMove (getLegalMoves k) s raws i = Some (Inr (ms ! i))" by simp
  qed
  with Suc raws len show ?thesis by blast
qed

lemma legalRaw_props:
  assumes "legalRaw s = Inr raws" and "m \<in> set raws"
  shows "inBounds (fromR m) (fromC m) \<and> inBounds (toR m) (toC m)
         \<and> (promotion m = None \<or> promotion m \<in> Some ` set promoKinds)
         \<and> keepsKing s m
         \<and> (\<exists>ps. generatePseudoLegalMoves s = Inr ps \<and> m \<in> set ps)"
proof -
  from assms(1) obtain ps where ps: "generatePseudoLegalMoves s = Inr ps"
    by (auto simp: legalRaw_def split: sum.splits)
  from legalRaw_filter [OF ps] assms have m: "m \<in> set ps" "keepsKing s m" by auto
  from pseudo_props [OF ps m(1)] m ps show ?thesis by blast
qed

lemma rawOf_fields:
  assumes "from_sq lm = rcToSq (fromR m) (fromC m)" "to_sq lm = rcToSq (toR m) (toC m)"
    "promo lm = promotion m" "inBounds (fromR m) (fromC m)" "inBounds (toR m) (toC m)"
  shows "rawOf lm = m"
  using assms by (cases m) (simp add: rawOf_def sqToRC_rcToSq mkMove_def)

lemma getLegalMoves_raw:
  assumes "getLegalMoves n s = Some (Inr ms)"
  shows "\<exists>raws. legalRaw s = Inr raws \<and> map rawOf ms = raws \<and> map uci ms = map uciOf raws"
proof -
  from getLegalMoves_Inr [OF assms] obtain k raws where
    raws: "legalRaw s = Inr raws" "length ms = length raws"
    and tl: "\<forall>i<length raws. toLegalMove (getLegalMoves k) s raws i = Some (Inr (ms ! i))"
    by blast
  have "\<forall>i<length raws. rawOf (ms ! i) = raws ! i \<and> uci (ms ! i) = uciOf (raws ! i)"
  proof (intro allI impI)
    fix i assume i: "i < length raws"
    then have mem: "raws ! i \<in> set raws" by simp
    from tl i have "toLegalMove (getLegalMoves k) s raws i = Some (Inr (ms ! i))" by simp
    from toLegalMove_fields [OF this] legalRaw_props [OF raws(1) mem]
    show "rawOf (ms ! i) = raws ! i \<and> uci (ms ! i) = uciOf (raws ! i)"
      by (simp add: rawOf_fields)
  qed
  with raws have "map rawOf ms = raws" "map uci ms = map uciOf raws"
    by (auto intro!: nth_equalityI)
  with raws show ?thesis by blast
qed

section \<open>The legality filter\<close>

lemma keepsKing_iff:
  "applyRawMove s m = Inr next \<Longrightarrow> keepsKing s m \<longleftrightarrow> \<not> isInCheck (board next) (turn s)"
  by (simp add: keepsKing_def)

text \<open>
  C2. Whenever \<open>getLegalMoves\<close> returns its list for a state \<open>s\<close>: every move of the
  list, applied to \<open>s\<close> the way \<open>makeMove\<close> applies it, gives a state on whose board the
  side that moved is not in check; and the list holds exactly the pseudo-moves whose
  resulting board leaves the mover's king unattacked, in the generator's order.
\<close>

theorem legal_moves_never_leave_king_attacked:
  assumes "getLegalMoves n s = Some (Inr ms)"
  shows "(\<forall>lm \<in> set ms. \<exists>next. applyRawMove s (rawOf lm) = Inr next
                          \<and> \<not> isInCheck (board next) (turn s))
       \<and> (\<exists>ps. generatePseudoLegalMoves s = Inr ps
              \<and> map rawOf ms = filter (keepsKing s) ps
              \<and> (\<forall>m \<in> set ps. \<exists>next. applyRawMove s m = Inr next
                     \<and> (m \<in> rawOf ` set ms \<longleftrightarrow> \<not> isInCheck (board next) (turn s))))"
proof -
  from getLegalMoves_raw [OF assms] obtain raws where
    raws: "legalRaw s = Inr raws" "map rawOf ms = raws" by blast
  from raws(1) obtain ps where ps: "generatePseudoLegalMoves s = Inr ps"
    by (auto simp: legalRaw_def split: sum.splits)
  from legalRaw_filter [OF ps] raws have flt: "map rawOf ms = filter (keepsKing s) ps" by simp
  have each: "\<forall>m \<in> set ps. \<exists>next. applyRawMove s m = Inr next
                \<and> (m \<in> rawOf ` set ms \<longleftrightarrow> \<not> isInCheck (board next) (turn s))"
  proof
    fix m assume m: "m \<in> set ps"
    from pseudo_applies [OF ps m] obtain nxt where nx: "applyRawMove s m = Inr nxt" by blast
    have "m \<in> rawOf ` set ms \<longleftrightarrow> m \<in> set (map rawOf ms)" by simp
    also have "\<dots> \<longleftrightarrow> keepsKing s m" using flt m by simp
    finally show "\<exists>next. applyRawMove s m = Inr next
                \<and> (m \<in> rawOf ` set ms \<longleftrightarrow> \<not> isInCheck (board next) (turn s))"
      using nx keepsKing_iff [OF nx] by blast
  qed
  have "\<forall>lm \<in> set ms. \<exists>next. applyRawMove s (rawOf lm) = Inr next
                          \<and> \<not> isInCheck (board next) (turn s)"
  proof
    fix lm assume "lm \<in> set ms"
    then have "rawOf lm \<in> set (filter (keepsKing s) ps)" using flt by (metis imageI set_map)
    then have "rawOf lm \<in> set ps" "rawOf lm \<in> rawOf ` set ms" using flt \<open>lm \<in> set ms\<close> by auto
    with each show "\<exists>next. applyRawMove s (rawOf lm) = Inr next
                          \<and> \<not> isInCheck (board next) (turn s)" by blast
  qed
  with ps flt each show ?thesis by blast
qed

lemma map_result_Inr:
  "map_option (map_sum id f) x = Some (Inr ys) \<Longrightarrow> \<exists>v. x = Some (Inr v) \<and> f v = ys"
  by (cases x) (auto simp: map_sum_def split: sum.splits)

lemma rookEndingUcis_length: "length rookEndingUcis = 15"
  by (simp add: rookEndingUcis_def)

lemma rookEnding_ucis:
  "map_option (map_sum id (map uci)) (getLegalMoves 2 rookEnding) = Some (Inr rookEndingUcis)"
  by code_simp

lemma rookEnding_returns:
  "\<exists>ms. getLegalMoves 2 rookEnding = Some (Inr ms) \<and> map uci ms = rookEndingUcis"
  by (rule map_result_Inr [OF rookEnding_ucis])

theorem legal_moves_never_leave_king_attacked_witness:
  "\<exists>ms. getLegalMoves 2 rookEnding = Some (Inr ms)
      \<and> length ms = 15
      \<and> (\<forall>lm \<in> set ms. \<exists>next. applyRawMove rookEnding (rawOf lm) = Inr next
                          \<and> \<not> isInCheck (board next) (turn rookEnding))"
proof -
  from rookEnding_returns
  obtain ms where ms: "getLegalMoves 2 rookEnding = Some (Inr ms)"
    and u: "map uci ms = rookEndingUcis" by blast
  have "length (map uci ms) = 15" by (simp only: u rookEndingUcis_length)
  then have len: "length ms = 15" by (simp only: length_map)
  from legal_moves_never_leave_king_attacked [OF ms]
  have safe: "\<forall>lm \<in> set ms. \<exists>next. applyRawMove rookEnding (rawOf lm) = Inr next
                          \<and> \<not> isInCheck (board next) (turn rookEnding)" by (rule conjunct1)
  show ?thesis
    by (rule exI [of _ ms]) (intro conjI ms len safe)
qed

section \<open>Structural validity is preserved\<close>

lemma rowSet_length: "0 \<le> c \<Longrightarrow> c < int (length row) \<Longrightarrow> length (rowSet row c v) = length row"
  by (simp add: rowSet_def)

lemma setCell_valid:
  assumes "length b = 8" "list_all (\<lambda>row. length row = 8) b" "inBounds r c"
  shows "length (setCell b r c v) = 8 \<and> list_all (\<lambda>row. length row = 8) (setCell b r c v)"
proof -
  from assms have r: "nat r < length b" and c: "0 \<le> c" "c < 8" by (auto simp: inBounds_def)
  from assms(2) r have "length (b ! nat r) = 8" by (simp add: list_all_length)
  with c have "length (rowSet (b ! nat r) c v) = 8" by (simp add: rowSet_length)
  with assms(1,2) show ?thesis
    unfolding setCell_def by (auto simp: list_all_iff dest!: set_update_subset_insert [THEN subsetD])
qed

lemma setCell_validBoard: "validBoard b \<Longrightarrow> inBounds r c \<Longrightarrow> validBoard (setCell b r c v)"
  using setCell_valid by (simp add: validBoard_def)

lemma movedBoard_validBoard:
  assumes "validBoard b" "inBounds (fromR m) (fromC m)" "inBounds (toR m) (toC m)"
  shows "validBoard (movedBoard b ep m p)"
proof -
  have f: "\<And>c. 0 \<le> c \<Longrightarrow> c < 8 \<Longrightarrow> inBounds (fromR m) c"
    using assms(2) by (simp add: inBounds_def)
  have t: "inBounds (fromR m) (toC m)" using assms(2,3) by (simp add: inBounds_def)
  show ?thesis
    unfolding movedBoard_def Let_def
    by (auto simp: assms f t setCell_validBoard split: option.splits)
qed

lemma movedState_valid:
  assumes "validState s" "inBounds (fromR m) (fromC m)" "inBounds (toR m) (toC m)"
  shows "validState (movedState s m p)"
  using assms by (simp add: validState_def movedState_def Let_def movedBoard_validBoard)

lemma pseudo_next_valid:
  assumes "validState s" "generatePseudoLegalMoves s = Inr ps" "m \<in> set ps"
    "applyRawMove s m = Inr nxt"
  shows "validState nxt"
proof -
  from pseudo_props [OF assms(2,3)] have ib: "inBounds (fromR m) (fromC m)" "inBounds (toR m) (toC m)"
    by auto
  from applyRawMove_Inr [OF assms(4)] obtain p where "nxt = movedState s m p" by blast
  with movedState_valid [OF assms(1) ib] show ?thesis by simp
qed

lemma sequenceAll_Inl:
  "sequenceAll xs = Some (Inl e) \<Longrightarrow> Some (Inl e) \<in> set xs"
  by (induction xs) (auto split: option.splits sum.splits)

lemma checkSuffix_no_throw:
  assumes "applyRawMove s m = Inr nxt" "\<forall>e. glm nxt \<noteq> Some (Inl e)"
  shows "checkSuffix glm s m \<noteq> Some (Inl e)"
  using assms by (auto simp: checkSuffix_def split: option.splits sum.splits)

lemma generateSAN_no_throw:
  assumes "boardAt (board s) (fromR (raws ! i)) (fromC (raws ! i)) = Some p"
    "applyRawMove s (raws ! i) = Inr nxt" "\<forall>e. glm nxt \<noteq> Some (Inl e)"
  shows "generateSAN glm s i raws \<noteq> Some (Inl e)"
proof -
  have "checkSuffix glm s (raws ! i) \<noteq> Some (Inl e)"
    by (rule checkSuffix_no_throw [where glm = glm, OF assms(2,3)])
  with assms(1) show ?thesis
    by (auto simp: generateSAN_def Let_def split: option.splits sum.splits)
qed

lemma toLegalMove_no_throw:
  assumes "boardAt (board s) (fromR (raws ! i)) (fromC (raws ! i)) = Some p"
    "applyRawMove s (raws ! i) = Inr nxt" "\<forall>e. glm nxt \<noteq> Some (Inl e)"
  shows "toLegalMove glm s raws i \<noteq> Some (Inl e)"
proof -
  have "generateSAN glm s i raws \<noteq> Some (Inl e)"
    by (rule generateSAN_no_throw [where glm = glm, OF assms])
  with assms(1) show ?thesis
    by (auto simp: toLegalMove_def Let_def split: option.splits sum.splits)
qed

lemma getLegalMoves_no_throw:
  "validState s \<Longrightarrow> getLegalMoves n s \<noteq> Some (Inl e)"
proof (induction n arbitrary: s e)
  case 0
  then show ?case by simp
next
  case (Suc n)
  from valid_generates [OF Suc.prems] obtain ps where ps: "generatePseudoLegalMoves s = Inr ps" by blast
  let ?raws = "filter (keepsKing s) ps"
  have raws: "legalRaw s = Inr ?raws" by (rule legalRaw_filter [OF ps])
  show ?case
  proof
    assume "getLegalMoves (Suc n) s = Some (Inl e)"
    then have "sequenceAll (map (toLegalMove (getLegalMoves n) s ?raws) [0..<length ?raws]) = Some (Inl e)"
      by (simp add: getLegalMovesBody_def raws)
    from sequenceAll_Inl [OF this] obtain i where i: "i < length ?raws"
      and thr: "toLegalMove (getLegalMoves n) s ?raws i = Some (Inl e)" by auto
    from i have mem: "?raws ! i \<in> set ps" using nth_mem by fastforce
    from pseudo_applies [OF ps mem] obtain p where
      p: "boardAt (board s) (fromR (?raws ! i)) (fromC (?raws ! i)) = Some p"
      and ap: "applyRawMove s (?raws ! i) = Inr (movedState s (?raws ! i) p)" by blast
    have "validState (movedState s (?raws ! i) p)"
      by (rule pseudo_next_valid [OF Suc.prems ps mem ap])
    then have "\<forall>e. getLegalMoves n (movedState s (?raws ! i) p) \<noteq> Some (Inl e)"
      using Suc.IH by blast
    from toLegalMove_no_throw [where glm = "getLegalMoves n", OF p ap this] thr show False by blast
  qed
qed

section \<open>Game status\<close>

lemma kings_total:
  "length (filter (\<lambda>p. type p = King) ps)
   = length (filter (\<lambda>p. color p = White \<and> type p = King) ps)
     + length (filter (\<lambda>p. color p = Black \<and> type p = King) ps)"
proof (induction ps)
  case Nil
  then show ?case by simp
next
  case (Cons p ps)
  then show ?case by (cases "color p") auto
qed

lemma insufficient_spec:
  assumes "2 \<le> length (filter (\<lambda>p. type p = King) ps)"
  shows "insufficient ps = specInsufficient ps"
proof (cases "length ps = 3")
  case False
  then show ?thesis by (simp add: insufficient_def specInsufficient_def)
next
  case True
  have "length (filter (\<lambda>p. type p = King) ps) + length (filter (\<lambda>p. type p \<noteq> King) ps) = length ps"
    using sum_length_filter_compl [of "\<lambda>p. type p = King" ps] by simp
  with assms True have "length (filter (\<lambda>p. type p \<noteq> King) ps) \<le> 1" by simp
  then have "filter (\<lambda>p. type p \<noteq> King) ps = [] \<or> (\<exists>q. filter (\<lambda>p. type p \<noteq> King) ps = [q])"
    by (cases "filter (\<lambda>p. type p \<noteq> King) ps") auto
  then show ?thesis
    by (auto simp: insufficient_def specInsufficient_def True)
qed

lemma oneKingEach_kings:
  "oneKingEach s \<Longrightarrow> 2 \<le> length (filter (\<lambda>p. type p = King) (boardPieces (board s)))"
  by (simp add: oneKingEach_def kingCount_def kings_total)

lemma statusOf_spec:
  "oneKingEach s \<Longrightarrow> statusOf s ms = specStatus s (length ms)"
  by (simp add: statusOf_def specStatus_def insufficient_spec [OF oneKingEach_kings])

section \<open>Moves by action string\<close>

lemma find_uci:
  "find (\<lambda>m. uci m = u) ms = None \<longleftrightarrow> u \<notin> uci ` set ms"
  by (auto simp: find_None_iff)

lemma legal_move_applies:
  assumes "getLegalMoves n s = Some (Inr ms)" "lm \<in> set ms"
  shows "\<exists>s'. applyRawMove s (rawOf lm) = Inr s'"
proof -
  from getLegalMoves_raw [OF assms(1)] obtain raws where
    raws: "legalRaw s = Inr raws" "map rawOf ms = raws" by blast
  with assms(2) have mem: "rawOf lm \<in> set raws" by auto
  from legalRaw_props [OF raws(1) mem] obtain ps where
    "generatePseudoLegalMoves s = Inr ps" "rawOf lm \<in> set ps" by blast
  from pseudo_applies [OF this] show ?thesis by blast
qed

lemma makeMove_outcome:
  assumes "getLegalMoves n s = Some (Inr ms)"
  shows "(makeMove n s u = Some (Inr None) \<longleftrightarrow> u \<notin> uci ` set ms)
       \<and> (u \<in> uci ` set ms \<longrightarrow>
            (\<exists>s' lm. makeMove n s u = Some (Inr (Some (s', lm))) \<and> lm \<in> set ms \<and> uci lm = u
                     \<and> find (\<lambda>m. uci m = u) ms = Some lm
                     \<and> applyRawMove s (rawOf lm) = Inr s'))"
proof (cases "find (\<lambda>m. uci m = u) ms")
  case None
  then have "u \<notin> uci ` set ms" by (simp add: find_uci)
  with None show ?thesis using assms by (simp add: makeMove_def)
next
  case (Some lm)
  then have lm: "lm \<in> set ms" "uci lm = u"
    by (auto simp: find_Some_iff)
  from legal_move_applies [OF assms lm(1)] obtain s' where s': "applyRawMove s (rawOf lm) = Inr s'"
    by blast
  have mk: "makeMove n s u = Some (Inr (Some (s', lm)))"
    using assms Some s' by (simp add: makeMove_def)
  have "u \<in> uci ` set ms" using lm by auto
  with mk lm Some s' show ?thesis by auto
qed

lemma makeMove_no_throw:
  assumes "validState s"
  shows "makeMove n s u \<noteq> Some (Inl e)"
proof (cases "getLegalMoves n s")
  case None
  then show ?thesis by (simp add: makeMove_def)
next
  case (Some r)
  show ?thesis
  proof (cases r)
    case (Inl e')
    with Some getLegalMoves_no_throw [OF assms] show ?thesis by blast
  next
    case (Inr ms)
    with Some have g: "getLegalMoves n s = Some (Inr ms)" by simp
    from makeMove_outcome [OF g, of u] show ?thesis
      by (cases "u \<in> uci ` set ms") auto
  qed
qed

lemma rookEnding_valid: "validState rookEnding"
  by code_simp

lemma rookEnding_oneKingEach: "oneKingEach rookEnding"
  by code_simp

section \<open>Action strings\<close>

lemma typeLetter_inj: "typeLetter p = typeLetter q \<Longrightarrow> p = q"
  by (cases p; cases q) (simp_all add: typeLetter_def)

lemma uciOf_length:
  "inBounds (fromR m) (fromC m) \<Longrightarrow> inBounds (toR m) (toC m) \<Longrightarrow>
   length (uciOf m) = (if promotion m = None then 4 else 5)"
  by (auto simp: uciOf_def rcToSq_length split: option.splits)

lemma uciOf_inj:
  assumes "inBounds (fromR m) (fromC m)" "inBounds (toR m) (toC m)"
    "inBounds (fromR m') (fromC m')" "inBounds (toR m') (toC m')"
    "uciOf m = uciOf m'"
  shows "m = m'"
proof -
  let ?a = "rcToSq (fromR m) (fromC m)" and ?b = "rcToSq (toR m) (toC m)"
  let ?a' = "rcToSq (fromR m') (fromC m')" and ?b' = "rcToSq (toR m') (toC m')"
  let ?p = "case promotion m of None \<Rightarrow> [] | Some p \<Rightarrow> [typeLetter p]"
  let ?p' = "case promotion m' of None \<Rightarrow> [] | Some p \<Rightarrow> [typeLetter p]"
  have eq: "?a @ (?b @ ?p) = ?a' @ (?b' @ ?p')"
    using assms(5) by (simp add: uciOf_def)
  have la: "length ?a = length ?a'" using assms(1,3) by (simp add: rcToSq_length)
  have lb: "length ?b = length ?b'" using assms(2,4) by (simp add: rcToSq_length)
  from eq la have a: "?a = ?a'" and rest: "?b @ ?p = ?b' @ ?p'" by simp_all
  from rest lb have b: "?b = ?b'" and p: "?p = ?p'" by simp_all
  from a assms(1,3) have f: "fromR m = fromR m' \<and> fromC m = fromC m'" by (rule_tac rcToSq_inj)
  from b assms(2,4) have t: "toR m = toR m' \<and> toC m = toC m'" by (rule_tac rcToSq_inj)
  from p have "promotion m = promotion m'"
    by (auto split: option.splits dest: typeLetter_inj)
  with f t show ?thesis by (cases m; cases m') simp
qed

lemma promo_letter:
  "promotion m \<in> Some ` set promoKinds \<Longrightarrow>
   \<exists>p. promotion m = Some p \<and> typeLetter p \<in> set ''qrbn''"
  by (auto simp: promoKinds_def typeLetter_def)

lemma uciOf_promo_suffix:
  "promotion m = Some p \<Longrightarrow> uciOf m = rcToSq (fromR m) (fromC m) @ rcToSq (toR m) (toC m) @ [typeLetter p]"
  by (simp add: uciOf_def)

section \<open>The generator lists no move twice\<close>

lemma distinct_concat_map:
  assumes "distinct xs" "\<And>x. x \<in> set xs \<Longrightarrow> distinct (f x)"
    "\<And>x y. x \<in> set xs \<Longrightarrow> y \<in> set xs \<Longrightarrow> x \<noteq> y \<Longrightarrow> set (f x) \<inter> set (f y) = {}"
  shows "distinct (concat (map f xs))"
  using assms
proof (induction xs)
  case Nil
  then show ?case by simp
next
  case (Cons x xs)
  have "distinct (concat (map f xs))"
    by (rule Cons.IH) (use Cons.prems in auto)
  moreover have "distinct (f x)" using Cons.prems(2) by simp
  moreover have "set (f x) \<inter> set (concat (map f xs)) = {}"
  proof -
    have "\<And>y. y \<in> set xs \<Longrightarrow> set (f x) \<inter> set (f y) = {}"
      using Cons.prems(1,3) by auto
    then show ?thesis by auto
  qed
  ultimately show ?case by simp
qed

lemma stepMoves_offset:
  "m \<in> set (stepMoves s r c offs) \<Longrightarrow> (toR m - r, toC m - c) \<in> set offs"
  by (auto simp: stepMoves_def mkMove_def split: if_splits)

lemma stepMoves_distinct: "distinct offs \<Longrightarrow> distinct (stepMoves s r c offs)"
  unfolding stepMoves_def
  by (rule distinct_concat_map) (auto simp: mkMove_def split: if_splits)

lemma slideMoves_target:
  "m \<in> set (slideMoves b trn r c dr dc nr nc) \<Longrightarrow>
   \<exists>k::nat. toR m = nr + int k * dr \<and> toC m = nc + int k * dc"
proof (induction b trn r c dr dc nr nc rule: slideMoves.induct)
  case (1 b trn r c dr dc nr nc)
  show ?case
  proof (cases "inBounds nr nc \<and> (dr \<noteq> 0 \<or> dc \<noteq> 0)")
    case False
    with "1.prems" show ?thesis by (simp add: slideMoves.simps)
  next
    case True
    show ?thesis
    proof (cases "boardAt b nr nc")
      case None
      with True "1.prems" have "m = mkMove r c nr nc None \<or> m \<in> set (slideMoves b trn r c dr dc (nr + dr) (nc + dc))"
        by (subst (asm) slideMoves.simps) auto
      then show ?thesis
      proof
        assume "m = mkMove r c nr nc None"
        then have "toR m = nr + int 0 * dr \<and> toC m = nc + int 0 * dc" by (simp add: mkMove_def)
        then show ?thesis by blast
      next
        assume "m \<in> set (slideMoves b trn r c dr dc (nr + dr) (nc + dc))"
        from "1.IH" [OF True None this] obtain k :: nat where
          "toR m = nr + dr + int k * dr \<and> toC m = nc + dc + int k * dc" by blast
        then have "toR m = nr + int (Suc k) * dr \<and> toC m = nc + int (Suc k) * dc"
          by (simp add: algebra_simps)
        then show ?thesis by blast
      qed
    next
      case (Some t)
      with True "1.prems" have "m = mkMove r c nr nc None"
        by (subst (asm) slideMoves.simps) (auto split: if_splits)
      then have "toR m = nr + int 0 * dr \<and> toC m = nc + int 0 * dc" by (simp add: mkMove_def)
      then show ?thesis by blast
    qed
  qed
qed

lemma slideMoves_distinct: "distinct (slideMoves b trn r c dr dc nr nc)"
proof (induction b trn r c dr dc nr nc rule: slideMoves.induct)
  case (1 b trn r c dr dc nr nc)
  show ?case
  proof (cases "inBounds nr nc \<and> (dr \<noteq> 0 \<or> dc \<noteq> 0)")
    case False
    then have "slideMoves b trn r c dr dc nr nc = []"
      by (subst slideMoves.simps) auto
    then show ?thesis by simp
  next
    case True
    show ?thesis
    proof (cases "boardAt b nr nc")
      case None
      have notin: "mkMove r c nr nc None \<notin> set (slideMoves b trn r c dr dc (nr + dr) (nc + dc))"
      proof
        assume "mkMove r c nr nc None \<in> set (slideMoves b trn r c dr dc (nr + dr) (nc + dc))"
        from slideMoves_target [OF this] obtain k :: nat where
          "nr = nr + dr + int k * dr" "nc = nc + dc + int k * dc" by (auto simp: mkMove_def)
        then have "(1 + int k) * dr = 0" "(1 + int k) * dc = 0" by (simp_all add: algebra_simps)
        then have "dr = 0" "dc = 0" by auto
        with True show False by simp
      qed
      have "slideMoves b trn r c dr dc nr nc
            = mkMove r c nr nc None # slideMoves b trn r c dr dc (nr + dr) (nc + dc)"
        using True None by (subst slideMoves.simps) auto
      with notin "1.IH" [OF True None] show ?thesis by simp
    next
      case (Some t)
      then have "slideMoves b trn r c dr dc nr nc
                 = (if color t \<noteq> trn then [mkMove r c nr nc None] else [])"
        using True by (subst slideMoves.simps) auto
      then show ?thesis by simp
    qed
  qed
qed

lemma sliderDirs_unit:
  "(dr, dc) \<in> set (sliderDirs t) \<Longrightarrow> dr \<in> {-1, 0, 1} \<and> dc \<in> {-1, 0, 1}"
  by (auto simp: sliderDirs_def bishopDirs_def rookDirs_def split: if_splits)

lemma sliderDirs_distinct: "distinct (sliderDirs t)"
  by (simp add: sliderDirs_def bishopDirs_def rookDirs_def)

lemma ray_direction:
  assumes "m \<in> set (slideMoves b trn r c dr dc (r + dr) (c + dc))"
    "dr \<in> {-1, 0, 1}" "dc \<in> {-1, 0, 1}"
  shows "sgn (toR m - r) = dr \<and> sgn (toC m - c) = dc"
proof -
  from slideMoves_target [OF assms(1)] obtain k :: nat where
    "toR m = r + dr + int k * dr" "toC m = c + dc + int k * dc" by blast
  then have "toR m - r = (1 + int k) * dr" "toC m - c = (1 + int k) * dc"
    by (simp_all add: algebra_simps)
  with assms(2,3) show ?thesis by (auto simp: sgn_mult)
qed

lemma sliderMoves_distinct: "distinct (sliderMoves s r c t)"
  unfolding sliderMoves_def
proof (rule distinct_concat_map)
  show "distinct (sliderDirs t)" by (rule sliderDirs_distinct)
next
  fix d assume "d \<in> set (sliderDirs t)"
  show "distinct (case d of (dr, dc) \<Rightarrow> slideMoves (board s) (turn s) r c dr dc (r + dr) (c + dc))"
    by (cases d) (simp add: slideMoves_distinct)
next
  fix d d' assume d: "d \<in> set (sliderDirs t)" "d' \<in> set (sliderDirs t)" "d \<noteq> d'"
  obtain dr dc dr' dc' where e: "d = (dr, dc)" "d' = (dr', dc')" by (cases d; cases d') auto
  have "\<And>m. m \<in> set (slideMoves (board s) (turn s) r c dr dc (r + dr) (c + dc)) \<Longrightarrow>
            m \<in> set (slideMoves (board s) (turn s) r c dr' dc' (r + dr') (c + dc')) \<Longrightarrow> False"
  proof -
    fix m
    assume a: "m \<in> set (slideMoves (board s) (turn s) r c dr dc (r + dr) (c + dc))"
      and a': "m \<in> set (slideMoves (board s) (turn s) r c dr' dc' (r + dr') (c + dc'))"
    from d e sliderDirs_unit have u: "dr \<in> {-1, 0, 1}" "dc \<in> {-1, 0, 1}"
      "dr' \<in> {-1, 0, 1}" "dc' \<in> {-1, 0, 1}" by blast+
    from ray_direction [OF a u(1,2)] ray_direction [OF a' u(3,4)]
    have "dr = dr'" "dc = dc'" by simp_all
    with d(3) e show False by simp
  qed
  then show "set (case d of (dr, dc) \<Rightarrow> slideMoves (board s) (turn s) r c dr dc (r + dr) (c + dc))
        \<inter> set (case d' of (dr, dc) \<Rightarrow> slideMoves (board s) (turn s) r c dr dc (r + dr) (c + dc)) = {}"
    unfolding e by auto
qed

lemma pawnArrives_distinct: "distinct (pawnArrives trn r c tr tc)"
  by (simp add: pawnArrives_def promoKinds_def mkMove_def distinct_map inj_on_def)

lemma pawnForward_distinct: "distinct (pawnForward s r c)"
  unfolding pawnForward_def Let_def
  by (auto simp: pawnArrives_distinct mkMove_def pawnDir_def dest!: pawnArrives_props)

lemma pawnForward_col: "m \<in> set (pawnForward s r c) \<Longrightarrow> toC m = c"
  unfolding pawnForward_def Let_def
  by (auto simp: mkMove_def split: if_splits dest!: pawnArrives_props)

lemma pawnCapture_col: "m \<in> set (pawnCapture s r c dc) \<Longrightarrow> toC m = c + dc"
  unfolding pawnCapture_def Let_def
  by (auto simp: mkMove_def split: if_splits option.splits dest!: pawnArrives_props)

lemma pawnCapture_distinct: "distinct (pawnCapture s r c dc)"
  unfolding pawnCapture_def Let_def
  by (auto simp: pawnArrives_distinct split: option.splits)

lemma pawnMoves_disjoint:
  "set (pawnCapture s r c (- 1)) \<inter> set (pawnCapture s r c 1) = {}"
  "set (pawnForward s r c) \<inter> set (pawnCapture s r c (- 1)) = {}"
  "set (pawnForward s r c) \<inter> set (pawnCapture s r c 1) = {}"
proof -
  { fix m assume a: "m \<in> set (pawnCapture s r c (- 1))" and b: "m \<in> set (pawnCapture s r c 1)"
    from pawnCapture_col [OF a] pawnCapture_col [OF b] have False by simp }
  then show "set (pawnCapture s r c (- 1)) \<inter> set (pawnCapture s r c 1) = {}" by blast
  { fix m assume a: "m \<in> set (pawnForward s r c)" and b: "m \<in> set (pawnCapture s r c (- 1))"
    from pawnForward_col [OF a] pawnCapture_col [OF b] have False by simp }
  then show "set (pawnForward s r c) \<inter> set (pawnCapture s r c (- 1)) = {}" by blast
  { fix m assume a: "m \<in> set (pawnForward s r c)" and b: "m \<in> set (pawnCapture s r c 1)"
    from pawnForward_col [OF a] pawnCapture_col [OF b] have False by simp }
  then show "set (pawnForward s r c) \<inter> set (pawnCapture s r c 1) = {}" by blast
qed

lemma pawnMoves_distinct: "distinct (pawnMoves s r c)"
  unfolding pawnMoves_def
  using pawnMoves_disjoint [of s r c]
  by (simp add: pawnForward_distinct pawnCapture_distinct Int_Un_distrib)

lemma castleMove_member:
  "m \<in> set (castleMove s r c right row empties rookC transit dest) \<Longrightarrow>
   right \<and> m = mkMove r c row dest None"
  by (auto simp: castleMove_def Let_def split: if_splits)

lemma castleMove_distinct: "distinct (castleMove s r c right row empties rookC transit dest)"
  by (simp add: castleMove_def Let_def)

lemma castlingMoves_member:
  assumes "m \<in> set (castlingMoves s r c)"
  shows "hasCastlingRight s \<and> toR m = homeRow (turn s) \<and> (toC m = 6 \<or> toC m = 2)"
proof (cases "turn s = White")
  case True
  with assms have "m \<in> set (castleMove s r c (castK (castling s)) 7 [5, 6] 7 5 6)
      \<or> m \<in> set (castleMove s r c (castQ (castling s)) 7 [3, 2, 1] 0 3 2)"
    by (simp add: castlingMoves_def)
  then show ?thesis using True
    by (auto dest!: castleMove_member simp: hasCastlingRight_def homeRow_def mkMove_def)
next
  case False
  with assms have "m \<in> set (castleMove s r c (castk (castling s)) 0 [5, 6] 7 5 6)
      \<or> m \<in> set (castleMove s r c (castq (castling s)) 0 [3, 2, 1] 0 3 2)"
    by (simp add: castlingMoves_def)
  then show ?thesis using False
    by (auto dest!: castleMove_member simp: hasCastlingRight_def homeRow_def mkMove_def)
qed

lemma castlingMoves_distinct: "distinct (castlingMoves s r c)"
proof -
  have "\<And>row a b. set (castleMove s r c a row [5, 6] 7 5 6)
                   \<inter> set (castleMove s r c b row [3, 2, 1] 0 3 2) = {}"
    by (auto dest!: castleMove_member simp: mkMove_def)
  then show ?thesis
    by (simp add: castlingMoves_def castleMove_distinct)
qed

lemma kingSteps_col:
  "m \<in> set (stepMoves s r c kingSteps) \<Longrightarrow> toC m - c \<in> {-1, 0, 1}"
  by (drule stepMoves_offset) (auto simp: kingSteps_def)

lemma kingMoves_distinct:
  assumes "\<not> hasCastlingRight s \<or> c = 4"
  shows "distinct (stepMoves s r c kingSteps @ castlingMoves s r c)"
proof -
  have "distinct (stepMoves s r c kingSteps)"
    by (rule stepMoves_distinct) (simp add: kingSteps_def)
  moreover have "set (stepMoves s r c kingSteps) \<inter> set (castlingMoves s r c) = {}"
  proof -
    { fix m assume a: "m \<in> set (stepMoves s r c kingSteps)" and b: "m \<in> set (castlingMoves s r c)"
      from castlingMoves_member [OF b] assms have "c = 4" "toC m = 6 \<or> toC m = 2" by auto
      with kingSteps_col [OF a] have False by auto }
    then show ?thesis by blast
  qed
  ultimately show ?thesis by (simp add: castlingMoves_distinct)
qed

lemma pieceMoves_distinct:
  assumes "t = King \<longrightarrow> \<not> hasCastlingRight s \<or> c = 4"
  shows "distinct (pieceMoves s r c t)"
proof (cases t)
  case Pawn
  then show ?thesis by (simp add: pieceMoves_def pawnMoves_distinct)
next
  case Knight
  then show ?thesis by (simp add: pieceMoves_def stepMoves_distinct knightMoves_def)
next
  case King
  with assms kingMoves_distinct show ?thesis by (simp add: pieceMoves_def)
qed (simp_all add: pieceMoves_def sliderMoves_distinct)

lemma movesFrom_distinct:
  assumes "castlingConsistent s" "inBounds r c"
  shows "distinct (movesFrom s (r, c))"
proof (cases "boardAt (board s) r c")
  case None
  then show ?thesis by (simp add: movesFrom_def)
next
  case (Some p)
  have "type p = King \<longrightarrow> color p = turn s \<longrightarrow> \<not> hasCastlingRight s \<or> c = 4"
  proof (intro impI)
    assume k: "type p = King" "color p = turn s"
    show "\<not> hasCastlingRight s \<or> c = 4"
    proof (cases "hasCastlingRight s")
      case True
      with assms(1) have "list_all (\<lambda>(r, c). \<not> pieceIs (boardAt (board s) r c) (turn s) [King]
                          \<or> (r = homeRow (turn s) \<and> c = 4)) squares"
        by (simp add: castlingConsistent_def)
      moreover have "(r, c) \<in> set squares" using assms(2) by (simp add: squares_iff)
      ultimately have "\<not> pieceIs (boardAt (board s) r c) (turn s) [King] \<or> c = 4"
        by (auto simp: list_all_iff)
      with Some k show ?thesis by (simp add: pieceIs_def)
    qed simp
  qed
  with Some show ?thesis
    by (auto simp: movesFrom_def intro: pieceMoves_distinct)
qed

lemma pseudo_distinct:
  assumes "castlingConsistent s" "generatePseudoLegalMoves s = Inr ps"
  shows "distinct ps"
proof -
  have ps: "ps = concat (map (movesFrom s) squares)"
    using assms(2) by (auto simp: generatePseudoLegalMoves_def split: if_splits)
  have dsq: "distinct squares"
    by (simp add: squares_def)
  show ?thesis
    unfolding ps
  proof (rule distinct_concat_map [OF dsq])
    fix x assume x: "x \<in> set squares"
    obtain r c where e: "x = (r, c)" by (cases x) auto
    with x have "inBounds r c" by (simp add: squares_iff)
    then show "distinct (movesFrom s x)"
      unfolding e by (rule movesFrom_distinct [OF assms(1)])
  next
    fix x y assume xy: "x \<in> set squares" "y \<in> set squares" "x \<noteq> y"
    obtain r c r' c' where e: "x = (r, c)" "y = (r', c')" by (cases x; cases y) auto
    { fix m assume a: "m \<in> set (movesFrom s (r, c))" and b: "m \<in> set (movesFrom s (r', c'))"
      from xy e have "inBounds r c" "inBounds r' c'" by (simp_all add: squares_iff)
      with movesFrom_props [OF a] movesFrom_props [OF b] have "r = r'" "c = c'" by auto
      with xy(3) e have False by simp }
    then show "set (movesFrom s x) \<inter> set (movesFrom s y) = {}" unfolding e by blast
  qed
qed

lemma getLegalMoves_fields:
  assumes "getLegalMoves n s = Some (Inr ms)" "lm \<in> set ms"
  shows "\<exists>raws m. legalRaw s = Inr raws \<and> m \<in> set raws \<and> rawOf lm = m
           \<and> from_sq lm = rcToSq (fromR m) (fromC m) \<and> to_sq lm = rcToSq (toR m) (toC m)
           \<and> uci lm = uciOf m \<and> promo lm = promotion m"
proof -
  from getLegalMoves_Inr [OF assms(1)] obtain k raws where
    raws: "legalRaw s = Inr raws" "length ms = length raws"
    and tl: "\<forall>i<length raws. toLegalMove (getLegalMoves k) s raws i = Some (Inr (ms ! i))"
    by blast
  from assms(2) obtain i where i: "i < length ms" "ms ! i = lm" by (auto simp: in_set_conv_nth)
  with raws have mem: "raws ! i \<in> set raws" by simp
  from tl i raws have "toLegalMove (getLegalMoves k) s raws i = Some (Inr lm)" by auto
  from toLegalMove_fields [OF this] legalRaw_props [OF raws(1) mem]
  have "rawOf lm = raws ! i \<and> from_sq lm = rcToSq (fromR (raws ! i)) (fromC (raws ! i))
       \<and> to_sq lm = rcToSq (toR (raws ! i)) (toC (raws ! i))
       \<and> uci lm = uciOf (raws ! i) \<and> promo lm = promotion (raws ! i)"
    by (simp add: rawOf_fields)
  with raws mem show ?thesis by blast
qed

lemma legal_uci_inj:
  assumes "getLegalMoves n s = Some (Inr ms)" "a \<in> set ms" "b \<in> set ms" "uci a = uci b"
  shows "rawOf a = rawOf b"
proof -
  from getLegalMoves_fields [OF assms(1,2)] obtain raws where
    a: "legalRaw s = Inr raws" "rawOf a \<in> set raws" "uci a = uciOf (rawOf a)" by auto
  from getLegalMoves_fields [OF assms(1,3)] a(1) have
    b: "rawOf b \<in> set raws" "uci b = uciOf (rawOf b)" by auto
  from legalRaw_props [OF a(1) a(2)] legalRaw_props [OF a(1) b(1)] assms(4) a(3) b(2)
  show ?thesis by (auto intro: uciOf_inj)
qed

lemma legal_uci_shape:
  assumes "getLegalMoves n s = Some (Inr ms)" "lm \<in> set ms"
  shows "uci lm = from_sq lm @ to_sq lm @ (case promo lm of None \<Rightarrow> [] | Some p \<Rightarrow> [typeLetter p])
       \<and> length (from_sq lm) = 2 \<and> length (to_sq lm) = 2
       \<and> (case promo lm of None \<Rightarrow> True | Some p \<Rightarrow> typeLetter p \<in> set ''qrbn'')"
proof -
  from getLegalMoves_fields [OF assms] obtain raws m where
    m: "legalRaw s = Inr raws" "m \<in> set raws"
       "from_sq lm = rcToSq (fromR m) (fromC m)" "to_sq lm = rcToSq (toR m) (toC m)"
       "uci lm = uciOf m" "promo lm = promotion m" by blast
  from legalRaw_props [OF m(1,2)] have ib: "inBounds (fromR m) (fromC m)" "inBounds (toR m) (toC m)"
    and pr: "promotion m = None \<or> promotion m \<in> Some ` set promoKinds" by auto
  from pr have "case promotion m of None \<Rightarrow> True | Some p \<Rightarrow> typeLetter p \<in> set ''qrbn''"
    by (auto simp: promoKinds_def typeLetter_def)
  with m ib show ?thesis by (simp add: uciOf_def rcToSq_length)
qed

lemma legal_uci_distinct:
  assumes "castlingConsistent s" "getLegalMoves n s = Some (Inr ms)"
  shows "distinct (map uci ms)"
proof -
  from getLegalMoves_raw [OF assms(2)] obtain raws where
    raws: "legalRaw s = Inr raws" "map uci ms = map uciOf raws" by blast
  from raws(1) obtain ps where ps: "generatePseudoLegalMoves s = Inr ps"
    by (auto simp: legalRaw_def split: sum.splits)
  from legalRaw_filter [OF ps] raws(1) have "raws = filter (keepsKing s) ps" by simp
  with pseudo_distinct [OF assms(1) ps] have d: "distinct raws" by simp
  have "inj_on uciOf (set raws)"
  proof (rule inj_onI)
    fix x y assume "x \<in> set raws" "y \<in> set raws" "uciOf x = uciOf y"
    with legalRaw_props [OF raws(1)] show "x = y" by (auto intro: uciOf_inj)
  qed
  with d raws(2) show ?thesis by (simp add: distinct_map)
qed

text \<open>
  C10, as the code has it. On every state on which \<open>getLegalMoves\<close> returns: when the
  castling rights of the side to move are consistent with the board, the action strings
  of the returned moves are pairwise distinct; in every case two returned moves with the
  same action string have the same origin, destination and promotion; the string of a
  promotion move has five characters, the last being the lowercase letter of the
  promotion kind (q, r, b or n), and every other string has four; so the move that
  \<open>makeMove\<close> applies for an action string is determined by the string, and a string of
  four characters never applies a promotion.
\<close>

theorem action_strings_determine_moves:
  assumes "getLegalMoves n s = Some (Inr ms)"
  shows "(castlingConsistent s \<longrightarrow> distinct (map uci ms))
       \<and> (\<forall>a \<in> set ms. \<forall>b \<in> set ms. uci a = uci b \<longrightarrow> rawOf a = rawOf b)
       \<and> (\<forall>lm \<in> set ms. length (uci lm) = (if promo lm = None then 4 else 5)
              \<and> (\<forall>p. promo lm = Some p \<longrightarrow> last (uci lm) = typeLetter p
                        \<and> typeLetter p \<in> set ''qrbn''))
       \<and> (\<forall>s' lm. makeMove n s u = Some (Inr (Some (s', lm))) \<longrightarrow>
              lm \<in> set ms \<and> uci lm = u \<and> applyRawMove s (rawOf lm) = Inr s'
              \<and> (\<forall>b \<in> set ms. uci b = u \<longrightarrow> rawOf b = rawOf lm)
              \<and> (length u = 4 \<longrightarrow> promo lm = None))"
proof (intro conjI)
  show "castlingConsistent s \<longrightarrow> distinct (map uci ms)"
    using legal_uci_distinct [OF _ assms] by blast
  show inj: "\<forall>a \<in> set ms. \<forall>b \<in> set ms. uci a = uci b \<longrightarrow> rawOf a = rawOf b"
    using legal_uci_inj [OF assms] by blast
  show shape: "\<forall>lm \<in> set ms. length (uci lm) = (if promo lm = None then 4 else 5)
              \<and> (\<forall>p. promo lm = Some p \<longrightarrow> last (uci lm) = typeLetter p
                        \<and> typeLetter p \<in> set ''qrbn'')"
  proof
    fix lm assume "lm \<in> set ms"
    from legal_uci_shape [OF assms this]
    show "length (uci lm) = (if promo lm = None then 4 else 5)
              \<and> (\<forall>p. promo lm = Some p \<longrightarrow> last (uci lm) = typeLetter p
                        \<and> typeLetter p \<in> set ''qrbn'')"
      by (cases "promo lm") auto
  qed
  show "\<forall>s' lm. makeMove n s u = Some (Inr (Some (s', lm))) \<longrightarrow>
              lm \<in> set ms \<and> uci lm = u \<and> applyRawMove s (rawOf lm) = Inr s'
              \<and> (\<forall>b \<in> set ms. uci b = u \<longrightarrow> rawOf b = rawOf lm)
              \<and> (length u = 4 \<longrightarrow> promo lm = None)"
  proof (intro allI impI)
    fix s' lm assume mk: "makeMove n s u = Some (Inr (Some (s', lm)))"
    then have "u \<in> uci ` set ms"
      using makeMove_outcome [OF assms, of u] by auto
    with makeMove_outcome [OF assms, of u] mk
    have lm: "lm \<in> set ms" "uci lm = u" "applyRawMove s (rawOf lm) = Inr s'" by auto
    from shape lm have l4: "length u = 4 \<longrightarrow> promo lm = None" by (auto split: if_splits)
    have same: "\<forall>b \<in> set ms. uci b = u \<longrightarrow> rawOf b = rawOf lm"
    proof (intro ballI impI)
      fix b assume b: "b \<in> set ms" "uci b = u"
      have "uci b = uci lm" by (simp only: b(2) lm(2))
      from legal_uci_inj [OF assms b(1) lm(1) this] show "rawOf b = rawOf lm" .
    qed
    show "lm \<in> set ms \<and> uci lm = u \<and> applyRawMove s (rawOf lm) = Inr s'
              \<and> (\<forall>b \<in> set ms. uci b = u \<longrightarrow> rawOf b = rawOf lm)
              \<and> (length u = 4 \<longrightarrow> promo lm = None)"
      by (intro conjI lm same l4)
  qed
qed

lemma rookEndingUcis_distinct: "distinct rookEndingUcis"
  by code_simp

lemma rookEnding_consistent: "castlingConsistent rookEnding"
  by code_simp

theorem action_strings_determine_moves_witness:
  "castlingConsistent rookEnding
   \<and> (\<exists>ms. getLegalMoves 2 rookEnding = Some (Inr ms) \<and> map uci ms = rookEndingUcis
          \<and> distinct (map uci ms))"
proof -
  from rookEnding_returns
  obtain ms where ms: "getLegalMoves 2 rookEnding = Some (Inr ms)"
    and u: "map uci ms = rookEndingUcis" by blast
  from action_strings_determine_moves [OF ms, of "[]"] rookEnding_consistent
  have "distinct (map uci ms)" by blast
  with ms u rookEnding_consistent show ?thesis by blast
qed

text \<open>
  C10 as stated fails on \<open>kingBesideG1\<close>, a structurally valid state with one king per
  side: the king move f2g1 is listed twice, once as a king step and once by the
  kingside castling test.
\<close>

theorem action_strings_counterexample:
  "validState kingBesideG1 \<and> oneKingEach kingBesideG1
   \<and> map_option (map_sum id (distinct \<circ> map uci)) (getLegalMoves 2 kingBesideG1)
       = Some (Inr False)"
  by code_simp

section \<open>Castling\<close>

lemma pieceIs_rook:
  "pieceIs sq trn [Rook] \<longleftrightarrow> sq = Some \<lparr>color = trn, type = Rook\<rparr>"
  by (cases sq) (auto simp: pieceIs_def)

lemma castlingMoves_iff:
  "mkMove r c (homeRow (turn s)) (castleDest kingside) None \<in> set (castlingMoves s r c)
   \<longleftrightarrow> specCastlingAllowed s (homeRow (turn s)) 4 kingside"
  by (cases kingside)
     (auto simp: castlingMoves_def castleMove_def specCastlingAllowed_def wingRight_def
                 castleDest_def homeRow_def mkMove_def pieceIs_rook Let_def)

lemma pseudo_from:
  assumes "generatePseudoLegalMoves s = Inr ps" "inBounds r c"
  shows "m \<in> set ps \<and> fromR m = r \<and> fromC m = c \<longleftrightarrow> m \<in> set (movesFrom s (r, c))"
proof
  assume a: "m \<in> set ps \<and> fromR m = r \<and> fromC m = c"
  from assms(1) have "ps = concat (map (movesFrom s) squares)"
    by (auto simp: generatePseudoLegalMoves_def split: if_splits)
  with a obtain r' c' where rc: "(r', c') \<in> set squares" "m \<in> set (movesFrom s (r', c'))"
    by auto
  then have "inBounds r' c'" by (simp add: squares_iff)
  from movesFrom_props [OF rc(2) this] a have "r' = r" "c' = c" by auto
  with rc(2) show "m \<in> set (movesFrom s (r, c))" by simp
next
  assume a: "m \<in> set (movesFrom s (r, c))"
  from assms(1) have "ps = concat (map (movesFrom s) squares)"
    by (auto simp: generatePseudoLegalMoves_def split: if_splits)
  moreover have "(r, c) \<in> set squares" using assms(2) by (simp add: squares_iff)
  ultimately have "m \<in> set ps" using a by auto
  with movesFrom_props [OF a assms(2)] show "m \<in> set ps \<and> fromR m = r \<and> fromC m = c" by simp
qed


section \<open>Reading a board after a write\<close>


section \<open>En passant\<close>








section \<open>Decoding a position\<close>




lemma king_moves_from:
  assumes "boardAt (board s) r c = Some \<lparr>color = turn s, type = King\<rparr>"
  shows "movesFrom s (r, c) = stepMoves s r c kingSteps @ castlingMoves s r c"
  using assms by (simp add: movesFrom_def pieceMoves_def)

lemma king_step_not_castling_from_home:
  "mkMove r 4 r' (castleDest kingside) None \<notin> set (stepMoves s r 4 kingSteps)"
proof
  assume "mkMove r 4 r' (castleDest kingside) None \<in> set (stepMoves s r 4 kingSteps)"
  from kingSteps_col [OF this] show False
    by (auto simp: mkMove_def castleDest_def split: if_splits)
qed

text \<open>
  C5, as the code has it. For every structurally valid state and every king of the side
  to move, standing on \<open>(r, c)\<close>: the castling tests of the generator emit the move
  from \<open>(r, c)\<close> to the destination square of a wing if and only if (a) the right of that
  wing is set, (b) the squares strictly between the home squares of king and rook are
  empty, (c) a rook of the side stands on its home square and (d) none of the king's
  home square (e1 or e8), the transit square and the destination square is attacked by
  the opponent: the tests look at the home square, not at \<open>(r, c)\<close>. The generated list
  holds that move if and only if these tests hold or the move is an ordinary king step.
  So for a king on its home square the list holds the castling move if and only if
  (a) to (d) hold with the king's own square as origin; and on a wing whose right is not
  set the tests emit nothing, wherever the king stands.
\<close>

theorem castling_emitted_iff_allowed:
  assumes "validState s" and "inBounds r c"
    and "boardAt (board s) r c = Some \<lparr>color = turn s, type = King\<rparr>"
  shows "(mkMove r c (homeRow (turn s)) (castleDest kingside) None \<in> set (castlingMoves s r c)
            \<longleftrightarrow> specCastlingAllowed s (homeRow (turn s)) 4 kingside)
       \<and> (\<exists>ps. generatePseudoLegalMoves s = Inr ps
            \<and> (mkMove r c (homeRow (turn s)) (castleDest kingside) None \<in> set ps
                 \<longleftrightarrow> specCastlingAllowed s (homeRow (turn s)) 4 kingside
                     \<or> mkMove r c (homeRow (turn s)) (castleDest kingside) None
                         \<in> set (stepMoves s r c kingSteps))
            \<and> (r = homeRow (turn s) \<and> c = 4 \<longrightarrow>
                 (mkMove r c (homeRow (turn s)) (castleDest kingside) None \<in> set ps
                  \<longleftrightarrow> specCastlingAllowed s r c kingside)))
       \<and> (\<not> wingRight s kingside \<longrightarrow>
            mkMove r c (homeRow (turn s)) (castleDest kingside) None \<notin> set (castlingMoves s r c)
            \<and> \<not> specCastlingAllowed s r c kingside)"
proof -
  let ?h = "homeRow (turn s)"
  let ?m = "mkMove r c ?h (castleDest kingside) None"
  have cm: "?m \<in> set (castlingMoves s r c) \<longleftrightarrow> specCastlingAllowed s ?h 4 kingside"
    by (rule castlingMoves_iff)
  from valid_generates [OF assms(1)] obtain ps where ps: "generatePseudoLegalMoves s = Inr ps"
    by blast
  have "fromR ?m = r" "fromC ?m = c" by (simp_all add: mkMove_def)
  with pseudo_from [OF ps assms(2), of ?m]
  have "?m \<in> set ps \<longleftrightarrow> ?m \<in> set (movesFrom s (r, c))" by simp
  also have "\<dots> \<longleftrightarrow> ?m \<in> set (stepMoves s r c kingSteps) \<or> ?m \<in> set (castlingMoves s r c)"
    by (simp add: king_moves_from [OF assms(3)])
  finally have lst: "?m \<in> set ps \<longleftrightarrow>
      specCastlingAllowed s ?h 4 kingside \<or> ?m \<in> set (stepMoves s r c kingSteps)"
    using cm by blast
  have home: "r = ?h \<and> c = 4 \<longrightarrow> (?m \<in> set ps \<longleftrightarrow> specCastlingAllowed s r c kingside)"
  proof
    assume e: "r = ?h \<and> c = 4"
    then have "?m \<notin> set (stepMoves s r c kingSteps)"
      using king_step_not_castling_from_home [of r ?h kingside s] by simp
    with lst e show "?m \<in> set ps \<longleftrightarrow> specCastlingAllowed s r c kingside" by simp
  qed
  have noright: "\<not> wingRight s kingside \<longrightarrow>
      ?m \<notin> set (castlingMoves s r c) \<and> \<not> specCastlingAllowed s r c kingside"
    using cm by (simp add: specCastlingAllowed_def Let_def)
  from cm ps lst home noright show ?thesis by blast
qed

lemma rookEnding_king_home:
  "inBounds (homeRow (turn rookEnding)) 4"
  "boardAt (board rookEnding) (homeRow (turn rookEnding)) 4
   = Some \<lparr>color = turn rookEnding, type = King\<rparr>"
  "specCastlingAllowed rookEnding (homeRow (turn rookEnding)) 4 True"
  by code_simp+

lemma kingOffHome_facts:
  "validState kingOffHome" "inBounds 6 4"
  "boardAt (board kingOffHome) 6 4 = Some \<lparr>color = turn kingOffHome, type = King\<rparr>"
  "specCastlingAllowed kingOffHome (homeRow (turn kingOffHome)) 4 True"
  "isAttackedBy (board kingOffHome) 6 4 Black"
  by code_simp+

theorem castling_emitted_iff_allowed_witness:
  "validState rookEnding
   \<and> boardAt (board rookEnding) (homeRow (turn rookEnding)) 4
       = Some \<lparr>color = turn rookEnding, type = King\<rparr>
   \<and> specCastlingAllowed rookEnding (homeRow (turn rookEnding)) 4 True
   \<and> (\<exists>ps. generatePseudoLegalMoves rookEnding = Inr ps
          \<and> mkMove (homeRow (turn rookEnding)) 4 (homeRow (turn rookEnding)) (castleDest True) None
              \<in> set ps)
   \<and> validState kingOffHome
   \<and> boardAt (board kingOffHome) 6 4 = Some \<lparr>color = turn kingOffHome, type = King\<rparr>
   \<and> isAttackedBy (board kingOffHome) 6 4 Black
   \<and> mkMove 6 4 (homeRow (turn kingOffHome)) (castleDest True) None
       \<in> set (castlingMoves kingOffHome 6 4)"
proof -
  from castling_emitted_iff_allowed [OF rookEnding_valid rookEnding_king_home(1,2), of True]
    rookEnding_king_home(3)
  have a: "\<exists>ps. generatePseudoLegalMoves rookEnding = Inr ps
          \<and> mkMove (homeRow (turn rookEnding)) 4 (homeRow (turn rookEnding)) (castleDest True) None
              \<in> set ps" by blast
  from castling_emitted_iff_allowed [OF kingOffHome_facts(1,2,3), of True] kingOffHome_facts(4)
  have b: "mkMove 6 4 (homeRow (turn kingOffHome)) (castleDest True) None
       \<in> set (castlingMoves kingOffHome 6 4)" by blast
  show ?thesis
    by (intro conjI rookEnding_valid rookEnding_king_home(2,3) a kingOffHome_facts(1,3,5) b)
qed

text \<open>
  C5 as stated fails on \<open>kingOffHome\<close>, a structurally valid state with one king per
  side: the king stands on e2, attacked by the rook on e8, and the generator emits the
  king move e2g1 from its kingside castling test, which the engine itself writes O-O;
  condition (d) of the claim does not hold for the king's origin square.
\<close>

theorem castling_counterexample:
  "validState kingOffHome \<and> oneKingEach kingOffHome
   \<and> boardAt (board kingOffHome) 6 4 = Some \<lparr>color = White, type = King\<rparr>
   \<and> isAttackedBy (board kingOffHome) 6 4 Black
   \<and> \<not> specCastlingAllowed kingOffHome 6 4 True
   \<and> mkMove 6 4 7 6 None \<in> set (castlingMoves kingOffHome 6 4)
   \<and> map_sum id (\<lambda>ps. List.member ps (mkMove 6 4 7 6 None)) (generatePseudoLegalMoves kingOffHome)
       = Inr True
   \<and> map_option (map_sum id (map san \<circ> filter (\<lambda>m. uci m = ''e2g1'')))
        (getLegalMoves 3 kingOffHome) = Some (Inr [''O-O''])"
  by code_simp

section \<open>Fuel\<close>

lemma checkSuffix_None_iff:
  "checkSuffix glm s m = None \<longleftrightarrow>
   (\<exists>nxt. applyRawMove s m = Inr nxt \<and> isInCheck (board nxt) (turn nxt) \<and> glm nxt = None)"
  by (auto simp: checkSuffix_def split: sum.splits option.splits)

lemma toLegalMove_None_iff:
  "toLegalMove glm s raws i = None \<longleftrightarrow>
   (\<exists>nxt. sanSuccessor s (raws ! i) = Some nxt \<and> glm nxt = None)"
proof (cases "boardAt (board s) (fromR (raws ! i)) (fromC (raws ! i))")
  case None
  then show ?thesis by (simp add: toLegalMove_def sanSuccessor_def Let_def)
next
  case (Some p)
  show ?thesis
  proof (cases "type p = King \<and> (toC (raws ! i) - fromC (raws ! i) = 2 \<or> fromC (raws ! i) - toC (raws ! i) = 2)")
    case True
    then have "generateSAN glm s i raws \<noteq> None"
      using Some by (auto simp: generateSAN_def Let_def)
    then have "toLegalMove glm s raws i \<noteq> None"
      using Some by (auto simp: toLegalMove_def Let_def split: option.splits sum.splits)
    moreover have "sanSuccessor s (raws ! i) = None"
      using Some True by (simp add: sanSuccessor_def)
    ultimately show ?thesis by simp
  next
    case False
    then have g: "generateSAN glm s i raws = None \<longleftrightarrow> checkSuffix glm s (raws ! i) = None"
      using Some by (auto simp: generateSAN_def Let_def split: option.splits sum.splits)
    have t: "toLegalMove glm s raws i = None \<longleftrightarrow> generateSAN glm s i raws = None"
      using Some by (auto simp: toLegalMove_def Let_def split: option.splits sum.splits)
    have "(\<exists>nxt. sanSuccessor s (raws ! i) = Some nxt \<and> glm nxt = None)
          \<longleftrightarrow> checkSuffix glm s (raws ! i) = None"
      using Some False
      by (auto simp: sanSuccessor_def checkSuffix_None_iff split: sum.splits if_splits)
    with g t show ?thesis by simp
  qed
qed

lemma sequenceAll_None_iff:
  "\<forall>x \<in> set xs. \<forall>e. x \<noteq> Some (Inl e) \<Longrightarrow> sequenceAll xs = None \<longleftrightarrow> None \<in> set xs"
proof (induction xs)
  case Nil
  then show ?case by simp
next
  case (Cons x xs)
  then have IH: "sequenceAll xs = None \<longleftrightarrow> None \<in> set xs" by simp
  from Cons.prems have nx: "\<forall>e. x \<noteq> Some (Inl e)" by simp
  show ?case
  proof (cases x)
    case None
    then show ?thesis by simp
  next
    case (Some r)
    with nx obtain v where "x = Some (Inr v)" by (cases r) auto
    with IH show ?thesis by (auto split: option.splits sum.splits)
  qed
qed

lemma ex_nth_iff: "(\<exists>i<length xs. P (xs ! i)) \<longleftrightarrow> (\<exists>m \<in> set xs. P m)"
  by (metis in_set_conv_nth)

lemma sanSuccessor_applies:
  "sanSuccessor s m = Some nxt \<Longrightarrow> applyRawMove s m = Inr nxt"
  by (auto simp: sanSuccessor_def split: option.splits sum.splits if_splits)

lemma legal_toLegalMove_no_throw:
  assumes "validState s" "legalRaw s = Inr raws" "i < length raws"
  shows "toLegalMove (getLegalMoves n) s raws i \<noteq> Some (Inl e)"
proof -
  from assms(3) have mem: "raws ! i \<in> set raws" by simp
  from legalRaw_props [OF assms(2) mem] obtain ps where
    ps: "generatePseudoLegalMoves s = Inr ps" "raws ! i \<in> set ps" by blast
  from pseudo_applies [OF ps] obtain p where
    p: "boardAt (board s) (fromR (raws ! i)) (fromC (raws ! i)) = Some p"
    and ap: "applyRawMove s (raws ! i) = Inr (movedState s (raws ! i) p)" by blast
  have "validState (movedState s (raws ! i) p)"
    by (rule pseudo_next_valid [OF assms(1) ps ap])
  then have "\<forall>e. getLegalMoves n (movedState s (raws ! i) p) \<noteq> Some (Inl e)"
    using getLegalMoves_no_throw by blast
  from toLegalMove_no_throw [where glm = "getLegalMoves n", OF p ap this] show ?thesis .
qed

text \<open>
  On a structurally valid state \<open>getLegalMoves\<close> returns within the fuel \<open>n\<close> exactly
  when every run of checking successors from the state is shorter than \<open>n\<close>.
\<close>

lemma returns_iff_settles:
  "validState s \<Longrightarrow> getLegalMoves n s \<noteq> None \<longleftrightarrow> settles n s"
proof (induction n arbitrary: s)
  case 0
  then show ?case by simp
next
  case (Suc n)
  from valid_generates [OF Suc.prems] obtain ps where ps: "generatePseudoLegalMoves s = Inr ps" by blast
  let ?raws = "filter (keepsKing s) ps"
  have raws: "legalRaw s = Inr ?raws" by (rule legalRaw_filter [OF ps])
  let ?xs = "map (toLegalMove (getLegalMoves n) s ?raws) [0..<length ?raws]"
  have nothrow: "\<forall>x \<in> set ?xs. \<forall>e. x \<noteq> Some (Inl e)"
    using legal_toLegalMove_no_throw [OF Suc.prems raws] by auto
  have "getLegalMoves (Suc n) s = None \<longleftrightarrow> sequenceAll ?xs = None"
    by (simp add: getLegalMovesBody_def raws)
  also have "\<dots> \<longleftrightarrow> None \<in> set ?xs" by (rule sequenceAll_None_iff [OF nothrow])
  also have "\<dots> \<longleftrightarrow> (\<exists>i<length ?raws. toLegalMove (getLegalMoves n) s ?raws i = None)"
  proof
    assume "None \<in> set ?xs"
    then obtain i where "i \<in> set [0..<length ?raws]"
      "toLegalMove (getLegalMoves n) s ?raws i = None" by (auto simp: image_iff)
    then show "\<exists>i<length ?raws. toLegalMove (getLegalMoves n) s ?raws i = None" by auto
  next
    assume "\<exists>i<length ?raws. toLegalMove (getLegalMoves n) s ?raws i = None"
    then obtain i where i: "i < length ?raws" "toLegalMove (getLegalMoves n) s ?raws i = None"
      by blast
    then have "i \<in> set [0..<length ?raws]" by simp
    with i(2) show "None \<in> set ?xs" by (metis (no_types, lifting) image_eqI set_map)
  qed
  also have "\<dots> \<longleftrightarrow> (\<exists>i<length ?raws. \<exists>nxt. sanSuccessor s (?raws ! i) = Some nxt
                        \<and> getLegalMoves n nxt = None)"
    by (simp only: toLegalMove_None_iff)
  also have "\<dots> \<longleftrightarrow> (\<exists>m \<in> set ?raws. \<exists>nxt. sanSuccessor s m = Some nxt \<and> \<not> settles n nxt)"
  proof -
    have v: "\<And>m nxt. m \<in> set ?raws \<Longrightarrow> sanSuccessor s m = Some nxt \<Longrightarrow> validState nxt"
    proof -
      fix m nxt assume m: "m \<in> set ?raws" and sn: "sanSuccessor s m = Some nxt"
      from m have "m \<in> set ps" by simp
      from pseudo_next_valid [OF Suc.prems ps this sanSuccessor_applies [OF sn]]
      show "validState nxt" .
    qed
    have "\<And>m nxt. m \<in> set ?raws \<Longrightarrow> sanSuccessor s m = Some nxt \<Longrightarrow>
            (getLegalMoves n nxt = None \<longleftrightarrow> \<not> settles n nxt)"
      using Suc.IH v by blast
    then have "(\<exists>m \<in> set ?raws. \<exists>nxt. sanSuccessor s m = Some nxt \<and> getLegalMoves n nxt = None)
          \<longleftrightarrow> (\<exists>m \<in> set ?raws. \<exists>nxt. sanSuccessor s m = Some nxt \<and> \<not> settles n nxt)"
      by blast
    then show ?thesis
      by (simp only: ex_nth_iff [of ?raws "\<lambda>m. \<exists>nxt. sanSuccessor s m = Some nxt \<and> getLegalMoves n nxt = None"])
  qed
  also have "\<dots> \<longleftrightarrow> \<not> settles (Suc n) s"
    by (auto simp: raws list_all_iff split: option.splits)
  finally show ?case by simp
qed

lemma checkSuffix_mono:
  assumes "\<And>s r. glm s = Some r \<Longrightarrow> glm' s = Some r" "checkSuffix glm s m = Some r"
  shows "checkSuffix glm' s m = Some r"
proof (cases "applyRawMove s m")
  case (Inl e)
  with assms(2) show ?thesis by (simp add: checkSuffix_def)
next
  case (Inr nxt)
  show ?thesis
  proof (cases "isInCheck (board nxt) (turn nxt)")
    case False
    with Inr assms(2) show ?thesis by (simp add: checkSuffix_def)
  next
    case True
    with Inr assms(2) obtain q where q: "glm nxt = Some q"
      by (cases "glm nxt") (auto simp: checkSuffix_def)
    from assms(1) [OF q] q Inr True assms(2) show ?thesis
      by (simp add: checkSuffix_def)
  qed
qed

lemma generateSAN_mono:
  assumes "\<And>s r. glm s = Some r \<Longrightarrow> glm' s = Some r" "generateSAN glm s i raws = Some r"
  shows "generateSAN glm' s i raws = Some r"
proof (cases "checkSuffix glm s (raws ! i)")
  case None
  with assms(2) show ?thesis
    by (auto simp: generateSAN_def Let_def split: option.splits if_splits)
next
  case (Some q)
  from checkSuffix_mono [where glm = glm and glm' = glm', OF assms(1) Some]
  have "checkSuffix glm' s (raws ! i) = Some q" by blast
  with Some assms(2) show ?thesis
    by (auto simp: generateSAN_def Let_def split: option.splits if_splits)
qed

lemma toLegalMove_mono:
  assumes "\<And>s r. glm s = Some r \<Longrightarrow> glm' s = Some r" "toLegalMove glm s raws i = Some r"
  shows "toLegalMove glm' s raws i = Some r"
proof (cases "generateSAN glm s i raws")
  case None
  with assms(2) show ?thesis
    by (auto simp: toLegalMove_def Let_def split: option.splits)
next
  case (Some q)
  from generateSAN_mono [where glm = glm and glm' = glm', OF assms(1) Some]
  have "generateSAN glm' s i raws = Some q" by blast
  with Some assms(2) show ?thesis
    by (auto simp: toLegalMove_def Let_def split: option.splits)
qed

lemma sequenceAll_mono:
  assumes "\<And>x r. x \<in> set xs \<Longrightarrow> f x = Some r \<Longrightarrow> g x = Some r"
    "sequenceAll (map f xs) = Some r"
  shows "sequenceAll (map g xs) = Some r"
  using assms
proof (induction xs arbitrary: r)
  case Nil
  then show ?case by simp
next
  case (Cons x xs)
  from Cons.prems(2) obtain q where q: "f x = Some q"
    by (cases "f x") auto
  with Cons.prems(1) have gq: "g x = Some q" by simp
  show ?case
  proof (cases q)
    case (Inl e)
    with q gq Cons.prems(2) show ?thesis by simp
  next
    case (Inr v)
    with q Cons.prems(2) obtain t where t: "sequenceAll (map f xs) = Some t"
      by (cases "sequenceAll (map f xs)") auto
    have "sequenceAll (map g xs) = Some t"
      by (rule Cons.IH [OF _ t]) (use Cons.prems(1) in auto)
    with t q gq Inr Cons.prems(2) show ?thesis by simp
  qed
qed

lemma getLegalMovesBody_mono:
  assumes "\<And>s r. glm s = Some r \<Longrightarrow> glm' s = Some r" "getLegalMovesBody glm s = Some r"
  shows "getLegalMovesBody glm' s = Some r"
proof (cases "legalRaw s")
  case (Inl e)
  with assms(2) show ?thesis by (simp add: getLegalMovesBody_def)
next
  case (Inr raws)
  with assms(2) have
    "sequenceAll (map (toLegalMove glm s raws) [0..<length raws]) = Some r"
    by (simp add: getLegalMovesBody_def)
  then have "sequenceAll (map (toLegalMove glm' s raws) [0..<length raws]) = Some r"
    by (rule sequenceAll_mono [rotated])
       (rule toLegalMove_mono [where glm = glm and glm' = glm', OF assms(1)])
  with Inr show ?thesis by (simp add: getLegalMovesBody_def)
qed

lemma getLegalMoves_Suc_mono:
  "getLegalMoves n s = Some r \<Longrightarrow> getLegalMoves (Suc n) s = Some r"
proof (induction n arbitrary: s r)
  case 0
  then show ?case by simp
next
  case (Suc n)
  have "getLegalMovesBody (getLegalMoves (Suc n)) s = Some r"
    by (rule getLegalMovesBody_mono [where glm = "getLegalMoves n"])
       (use Suc in auto)
  then show ?case by simp
qed

text \<open>More fuel never changes a result: what returns with fuel \<open>n\<close> returns with any more.\<close>

lemma getLegalMoves_fuel_mono:
  "getLegalMoves n s = Some r \<Longrightarrow> getLegalMoves (n + k) s = Some r"
  by (induction k) (auto dest: getLegalMoves_Suc_mono)

lemma insufficient_first_non_king:
  "insufficient ps \<longleftrightarrow>
     length ps = 2
     \<or> (length ps = 3
        \<and> (\<exists>p rest. filter (\<lambda>q. type q \<noteq> King) ps = p # rest
                      \<and> (type p = Bishop \<or> type p = Knight)))"
  by (cases "filter (\<lambda>q. type q \<noteq> King) ps") (auto simp: insufficient_def)

lemma returns_Inr_iff_settles:
  assumes "validState s"
  shows "(\<exists>ms. getLegalMoves n s = Some (Inr ms)) \<longleftrightarrow> settles n s"
proof -
  have "(\<exists>ms. getLegalMoves n s = Some (Inr ms)) \<longleftrightarrow> getLegalMoves n s \<noteq> None"
  proof (cases "getLegalMoves n s")
    case None
    then show ?thesis by simp
  next
    case (Some r)
    with getLegalMoves_no_throw [OF assms, of n] show ?thesis by (cases r) auto
  qed
  with returns_iff_settles [OF assms, of n] show ?thesis by simp
qed

text \<open>
  C3, as the code has it. On a structurally valid state \<open>getLegalMoves\<close> returns its
  list within the fuel exactly when every run of checking successors from the state is
  shorter than the fuel. Whenever it returns its list, \<open>getGameStatus\<close> returns, with
  that fuel and with any more, the value of this decision order: no legal move gives
  checkmate, won by the side not to move, when the side to move is in check, and
  stalemate otherwise; else a halfmove clock of at least 100 gives the fifty-move draw;
  else two pieces, or three pieces of which the first non-king piece in board order is
  a bishop or a knight, give the insufficient-material draw; else the game is in
  progress. With one king per side this is the decision order of the specification,
  where the first non-king piece of three is the sole one.
\<close>

theorem getGameStatus_decision_order:
  "(validState s \<longrightarrow> ((\<exists>ms. getLegalMoves n s = Some (Inr ms)) \<longleftrightarrow> settles n s))
   \<and> (\<forall>ms. getLegalMoves n s = Some (Inr ms) \<longrightarrow>
         (\<forall>k. getGameStatus (n + k) s = Some (Inr
            (if length ms = 0
             then (if isInCheck (board s) (turn s)
                   then (if turn s = White then checkmate_black else checkmate_white)
                   else stalemate)
             else if 100 \<le> halfmoveClock s then draw_50
             else if length (boardPieces (board s)) = 2
                     \<or> (length (boardPieces (board s)) = 3
                        \<and> (\<exists>p rest. filter (\<lambda>q. type q \<noteq> King) (boardPieces (board s)) = p # rest
                                      \<and> (type p = Bishop \<or> type p = Knight)))
             then draw_insufficient
             else playing)))
         \<and> (oneKingEach s \<longrightarrow>
              (\<forall>k. getGameStatus (n + k) s = Some (Inr (specStatus s (length ms))))))"
proof (intro conjI allI impI)
  assume "validState s"
  then show "(\<exists>ms. getLegalMoves n s = Some (Inr ms)) \<longleftrightarrow> settles n s"
    by (rule returns_Inr_iff_settles)
next
  fix ms k assume g: "getLegalMoves n s = Some (Inr ms)"
  from getLegalMoves_fuel_mono [OF g, of k]
  have "getGameStatus (n + k) s = Some (Inr (statusOf s ms))"
    by (simp add: getGameStatus_def)
  then show "getGameStatus (n + k) s = Some (Inr
            (if length ms = 0
             then (if isInCheck (board s) (turn s)
                   then (if turn s = White then checkmate_black else checkmate_white)
                   else stalemate)
             else if 100 \<le> halfmoveClock s then draw_50
             else if length (boardPieces (board s)) = 2
                     \<or> (length (boardPieces (board s)) = 3
                        \<and> (\<exists>p rest. filter (\<lambda>q. type q \<noteq> King) (boardPieces (board s)) = p # rest
                                      \<and> (type p = Bishop \<or> type p = Knight)))
             then draw_insufficient
             else playing))"
    by (simp only: statusOf_def insufficient_first_non_king)
next
  fix ms k assume g: "getLegalMoves n s = Some (Inr ms)" and o: "oneKingEach s"
  from getLegalMoves_fuel_mono [OF g, of k]
  have "getGameStatus (n + k) s = Some (Inr (statusOf s ms))"
    by (simp add: getGameStatus_def)
  then show "getGameStatus (n + k) s = Some (Inr (specStatus s (length ms)))"
    by (simp only: statusOf_spec [OF o])
qed

lemma rookEnding_specStatus: "specStatus rookEnding 15 = playing"
  by code_simp

lemma status_examples:
  "getGameStatus 2 (rookEnding\<lparr>halfmoveClock := 100\<rparr>) = Some (Inr draw_50)"
  "getGameStatus 2 (rookEnding\<lparr>halfmoveClock := 99\<rparr>) = Some (Inr playing)"
  "getGameStatus 2 bareKings = Some (Inr draw_insufficient)"
  "getGameStatus 2 queenMate = Some (Inr checkmate_white)"
  "getGameStatus 2 queenStalemate = Some (Inr stalemate)"
  by code_simp+

theorem getGameStatus_decision_order_witness:
  "validState rookEnding \<and> oneKingEach rookEnding \<and> settles 2 rookEnding
   \<and> (\<exists>ms. getLegalMoves 2 rookEnding = Some (Inr ms) \<and> length ms = 15)
   \<and> getGameStatus (2 + 0) rookEnding = Some (Inr playing)
   \<and> getGameStatus (2 + 3) rookEnding = Some (Inr playing)
   \<and> getGameStatus 2 (rookEnding\<lparr>halfmoveClock := 100\<rparr>) = Some (Inr draw_50)
   \<and> getGameStatus 2 (rookEnding\<lparr>halfmoveClock := 99\<rparr>) = Some (Inr playing)
   \<and> getGameStatus 2 bareKings = Some (Inr draw_insufficient)
   \<and> getGameStatus 2 queenMate = Some (Inr checkmate_white)
   \<and> getGameStatus 2 queenStalemate = Some (Inr stalemate)"
proof -
  from rookEnding_returns
  obtain ms where ms: "getLegalMoves 2 rookEnding = Some (Inr ms)"
    and u: "map uci ms = rookEndingUcis" by blast
  have "length (map uci ms) = 15" by (simp only: u rookEndingUcis_length)
  then have len: "length ms = 15" by (simp only: length_map)
  note t = getGameStatus_decision_order [of rookEnding 2]
  from t rookEnding_valid ms have st: "settles 2 rookEnding" by blast
  from t ms rookEnding_oneKingEach
  have "\<forall>k. getGameStatus (2 + k) rookEnding = Some (Inr (specStatus rookEnding (length ms)))"
    by blast
  moreover have "specStatus rookEnding (length ms) = playing"
    by (simp only: len rookEnding_specStatus)
  ultimately have g: "\<forall>k. getGameStatus (2 + k) rookEnding = Some (Inr playing)"
    by simp
  from g have g0: "getGameStatus (2 + 0) rookEnding = Some (Inr playing)" by (rule spec)
  from g have g3: "getGameStatus (2 + 3) rookEnding = Some (Inr playing)" by (rule spec)
  have ex: "\<exists>ms. getLegalMoves 2 rookEnding = Some (Inr ms) \<and> length ms = 15"
    using ms len by blast
  show ?thesis
    by (intro conjI rookEnding_valid rookEnding_oneKingEach st ex g0 g3 status_examples)
qed

text \<open>
  C3 as stated fails on \<open>knightRookState\<close>, a structurally valid state: of its three
  pieces two are no kings, so no piece is the sole non-king piece and the stated order
  gives in-progress; the engine looks at the first non-king piece, the knight, and
  returns the insufficient-material draw.
\<close>

theorem getGameStatus_counterexample:
  "validState knightRookState
   \<and> getGameStatus 2 knightRookState = Some (Inr draw_insufficient)
   \<and> map_option (map_sum id (specStatus knightRookState \<circ> length))
        (getLegalMoves 2 knightRookState) = Some (Inr playing)"
  by code_simp

lemma startState_parsed: "parseFEN STARTING_FEN = ParseReturns startState"
  by code_simp




section \<open>The input state is left unmodified\<close>

lemma readBoard_allocState:
  "readBoard (allocState h rows cr ob) (length (boardArrays h)) = rows"
  by (auto simp: readBoard_def allocState_def nth_append intro!: nth_equalityI)

lemma readBoard_allocState_old:
  assumes "b < length (boardArrays h)" "list_all (\<lambda>a. a < length (rowArrays h)) (boardArrays h ! b)"
  shows "readBoard (allocState h rows cr ob) b = readBoard h b"
  using assms by (auto simp: readBoard_def allocState_def nth_append list_all_iff)

lemma cloneStateH_allocState:
  "cloneStateH h ref =
     (allocState h (readBoard h (boardRef (stateObjs h ! ref)))
        (castObjs h ! castRef (stateObjs h ! ref)) (stateObjs h ! ref), length (stateObjs h))"
  if "wellFormed h ref"
  using that
  by (simp add: cloneStateH_def cloneBoardH_def allocState_def Let_def wellFormed_def nth_append readBoard_def)

lemma writeCellH_allocState:
  assumes "0 \<le> r" "nat r < length rows"
  shows "writeCellH (allocState h rows cr ob) (length (boardArrays h)) r c v
         = allocState h (setCell rows r c v) cr ob"
  using assms
  by (simp add: writeCellH_def allocState_def Let_def setCell_def nth_append list_update_append)

lemma readCellH_allocState:
  "readCellH (allocState h rows cr ob) (length (boardArrays h)) r c = boardAt rows r c"
  by (simp add: readCellH_def readBoard_allocState)

lemma setCell_length: "length (setCell b r c v) = length b"
  by (simp add: setCell_def)

lemma movedBoardH_allocState:
  assumes "rowOk rows (fromR m)" "rowOk rows (toR m)"
  shows "movedBoardH (allocState h rows cr ob) (length (boardArrays h)) ep m p
         = allocState h (movedBoard rows ep m p) cr ob"
proof -
  have f: "0 \<le> fromR m" "nat (fromR m) < length rows" and t: "0 \<le> toR m" "nat (toR m) < length rows"
    using assms by (auto simp: rowOk_def)
  show ?thesis
    using f t
    by (auto simp: movedBoardH_def movedBoard_def Let_def writeCellH_allocState readCellH_allocState
          setCell_length split: option.splits prod.splits)
qed

lemma allocState_fields:
  "stateObjs (allocState h rows cr ob) ! length (stateObjs h)
     = ob\<lparr>boardRef := length (boardArrays h), castRef := length (castObjs h)\<rparr>"
  "ref < length (stateObjs h) \<Longrightarrow> stateObjs (allocState h rows cr ob) ! ref = stateObjs h ! ref"
  "castObjs (allocState h rows cr ob) ! length (castObjs h) = cr"
  "c < length (castObjs h) \<Longrightarrow> castObjs (allocState h rows cr ob) ! c = castObjs h ! c"
  by (simp_all add: allocState_def nth_append)

lemma allocState_updates:
  "(allocState h rows cr ob)\<lparr>castObjs := (castObjs (allocState h rows cr ob))[length (castObjs h) := cr']\<rparr>
     = allocState h rows cr' ob"
  "(allocState h rows cr ob)\<lparr>stateObjs := (stateObjs (allocState h rows cr ob))[length (stateObjs h) :=
        ob'\<lparr>boardRef := length (boardArrays h), castRef := length (castObjs h)\<rparr>]\<rparr>
     = allocState h rows cr ob'"
  by (simp_all add: allocState_def)

lemma readState_allocState_new:
  "readState (allocState h rows cr ob) (length (stateObjs h))
     = \<lparr>board = rows, turn = turnF ob, castling = cr, enPassant = epF ob,
        halfmoveClock = halfF ob, fullmoveNumber = fullF ob\<rparr>"
  by (simp add: readState_def Let_def allocState_fields readBoard_allocState)

lemma readState_allocState_old:
  assumes "wellFormed h ref"
  shows "readState (allocState h rows cr ob) ref = readState h ref"
  using assms
  by (simp add: readState_def Let_def allocState_fields readBoard_allocState_old wellFormed_def)

lemma unchanged_allocState: "unchanged h (allocState h rows cr ob)"
  by (simp add: unchanged_def allocState_def)

lemma wellFormed_allocState_old:
  "wellFormed h ref \<Longrightarrow> wellFormed (allocState h rows cr ob) ref"
  by (auto simp: wellFormed_def allocState_def nth_append list_all_iff)

lemma wellFormed_allocState_new:
  "wellFormed (allocState h rows cr ob) (length (stateObjs h))"
  by (auto simp: wellFormed_def allocState_def nth_append list_all_iff)

lemma movedStateH_allocState:
  assumes "ref < length (stateObjs h)" "rowOk rows (fromR m)" "rowOk rows (toR m)"
  shows "movedStateH (allocState h rows cr ob) ref (length (stateObjs h)) m p cap
         = allocState h (movedBoard rows (epF (stateObjs h ! ref)) m p) (updateCastling cr p cap m)
             (ob\<lparr>epF := (if type p = Pawn \<and> \<bar>toR m - fromR m\<bar> = 2
                           then Some (rcToSq ((fromR m + toR m) div 2) (fromC m)) else None),
                 halfF := (if type p = Pawn \<or> cap \<noteq> None then 0 else halfF ob + 1),
                 fullF := (if turnF (stateObjs h ! ref) = Black then fullF ob + 1 else fullF ob),
                 turnF := (if turnF (stateObjs h ! ref) = White then Black else White)\<rparr>)"
proof -
  have "movedStateH (allocState h rows cr ob) ref (length (stateObjs h)) m p cap
        = (let h1 = allocState h (movedBoard rows (epF (stateObjs h ! ref)) m p) cr ob;
               nx = ob\<lparr>boardRef := length (boardArrays h), castRef := length (castObjs h)\<rparr>;
               old = stateObjs h ! ref;
               h2 = h1\<lparr>castObjs := (castObjs h1)[length (castObjs h) :=
                      updateCastling (castObjs h1 ! length (castObjs h)) p cap m]\<rparr>
           in h2\<lparr>stateObjs := (stateObjs h2)[length (stateObjs h) :=
              nx\<lparr>epF := (if type p = Pawn \<and> \<bar>toR m - fromR m\<bar> = 2
                           then Some (rcToSq ((fromR m + toR m) div 2) (fromC m)) else None),
                 halfF := (if type p = Pawn \<or> cap \<noteq> None then 0 else halfF nx + 1),
                 fullF := (if turnF old = Black then fullF nx + 1 else fullF nx),
                 turnF := (if turnF old = White then Black else White)\<rparr>]\<rparr>)"
    using assms
    by (simp add: movedStateH_def Let_def allocState_fields movedBoardH_allocState)
  also have "\<dots> = allocState h (movedBoard rows (epF (stateObjs h ! ref)) m p) (updateCastling cr p cap m)
             (ob\<lparr>epF := (if type p = Pawn \<and> \<bar>toR m - fromR m\<bar> = 2
                           then Some (rcToSq ((fromR m + toR m) div 2) (fromC m)) else None),
                 halfF := (if type p = Pawn \<or> cap \<noteq> None then 0 else halfF ob + 1),
                 fullF := (if turnF (stateObjs h ! ref) = Black then fullF ob + 1 else fullF ob),
                 turnF := (if turnF (stateObjs h ! ref) = White then Black else White)\<rparr>)"
    by (simp add: allocState_def Let_def)
  finally show ?thesis .
qed

text \<open>The store-level \<open>applyRawMove\<close> computes the pure one on what it reads.\<close>

lemma applyRawMoveH_refines:
  assumes "wellFormed h ref"
  shows "applyRawMoveH h ref m =
           (case applyRawMove (readState h ref) m of
              Inl e \<Rightarrow> Inl e
            | Inr s' \<Rightarrow>
                Inr (allocState h (board s') (castling s')
                       \<lparr>boardRef = 0, turnF = turn s', castRef = 0, epF = enPassant s',
                        halfF = halfmoveClock s', fullF = fullmoveNumber s'\<rparr>,
                     length (stateObjs h)))"
proof -
  let ?ob = "stateObjs h ! ref"
  let ?rows = "readBoard h (boardRef ?ob)"
  have ref: "ref < length (stateObjs h)" using assms by (simp add: wellFormed_def)
  have rs: "board (readState h ref) = ?rows" "enPassant (readState h ref) = epF ?ob"
    "turn (readState h ref) = turnF ?ob" "castling (readState h ref) = castObjs h ! castRef ?ob"
    "halfmoveClock (readState h ref) = halfF ?ob" "fullmoveNumber (readState h ref) = fullF ?ob"
    by (simp_all add: readState_def Let_def)
  show ?thesis
  proof (cases "rowOk ?rows (fromR m) \<and> rowOk ?rows (toR m)")
    case False
    then show ?thesis
      by (auto simp: applyRawMoveH_def cloneStateH_allocState [OF assms] Let_def allocState_fields
            readBoard_allocState applyRawMove_def rs)
  next
    case True
    show ?thesis
    proof (cases "boardAt ?rows (fromR m) (fromC m)")
      case None
      then show ?thesis using True
        by (simp add: applyRawMoveH_def cloneStateH_allocState [OF assms] Let_def allocState_fields
            readBoard_allocState readCellH_allocState applyRawMove_def rs)
    next
      case (Some p)
      let ?cap = "boardAt ?rows (toR m) (toC m)"
      have ok: "rowOk ?rows (fromR m)" "rowOk ?rows (toR m)" using True by simp_all
      have a: "applyRawMoveH h ref m
            = Inr (movedStateH (allocState h ?rows (castObjs h ! castRef ?ob) ?ob) ref (length (stateObjs h))
                     m p ?cap, length (stateObjs h))"
        using True Some
        by (simp add: applyRawMoveH_def cloneStateH_allocState [OF assms] Let_def allocState_fields
            readBoard_allocState readCellH_allocState)
      have b: "applyRawMove (readState h ref) m = Inr (movedState (readState h ref) m p)"
        using True Some by (simp add: applyRawMove_def rs)
      have c: "allocState h (board (movedState (readState h ref) m p))
                 (castling (movedState (readState h ref) m p))
                 \<lparr>boardRef = 0, turnF = turn (movedState (readState h ref) m p), castRef = 0,
                  epF = enPassant (movedState (readState h ref) m p),
                  halfF = halfmoveClock (movedState (readState h ref) m p),
                  fullF = fullmoveNumber (movedState (readState h ref) m p)\<rparr>
               = movedStateH (allocState h ?rows (castObjs h ! castRef ?ob) ?ob) ref (length (stateObjs h))
                   m p ?cap"
        unfolding movedStateH_allocState [OF ref ok]
        by (simp add: movedState_def Let_def rs allocState_def)
      show ?thesis
        unfolding a b by (simp add: c)
    qed
  qed
qed

lemma take_prefix_length:
  assumes "take (length xs) ys = xs"
  shows "length xs \<le> length ys"
proof -
  have "length (take (length xs) ys) = length xs" using assms by simp
  then show ?thesis by simp
qed

lemma take_prefix_nth:
  assumes "take (length xs) ys = xs" "i < length xs"
  shows "ys ! i = xs ! i" "i < length ys"
proof -
  have "length xs \<le> length ys"
    using assms(1) by (rule take_prefix_length)
  then show "i < length ys" using assms(2) by simp
  show "ys ! i = xs ! i"
    using assms by (metis nth_take)
qed

lemma take_prefix_trans:
  assumes "take (length xs) ys = xs" "take (length ys) zs = ys"
  shows "take (length xs) zs = xs"
proof -
  have "length xs \<le> length ys"
    using assms(1) by (rule take_prefix_length)
  then have "take (length xs) zs = take (length xs) (take (length ys) zs)"
    by (simp add: min_def)
  then show ?thesis using assms by simp
qed

lemma unchanged_refl: "unchanged h h"
  by (simp add: unchanged_def)

lemma unchanged_trans: "unchanged h h1 \<Longrightarrow> unchanged h1 h2 \<Longrightarrow> unchanged h h2"
  unfolding unchanged_def by (blast intro: take_prefix_trans)

lemma unchanged_length:
  assumes "unchanged h h'"
  shows "length (stateObjs h) \<le> length (stateObjs h')" "length (boardArrays h) \<le> length (boardArrays h')"
    "length (castObjs h) \<le> length (castObjs h')" "length (rowArrays h) \<le> length (rowArrays h')"
  using assms unfolding unchanged_def by (simp_all add: take_prefix_length)

lemma unchanged_wellFormed:
  assumes "unchanged h h'" "wellFormed h ref"
  shows "wellFormed h' ref" "readState h' ref = readState h ref"
proof -
  let ?ob = "stateObjs h ! ref"
  have r: "ref < length (stateObjs h)" and b: "boardRef ?ob < length (boardArrays h)"
    and c: "castRef ?ob < length (castObjs h)"
    and rows: "\<forall>a\<in>set (boardArrays h ! boardRef ?ob). a < length (rowArrays h)"
    using assms(2) by (simp_all add: wellFormed_def list_all_iff)
  have p: "take (length (rowArrays h)) (rowArrays h') = rowArrays h"
     "take (length (boardArrays h)) (boardArrays h') = boardArrays h"
     "take (length (castObjs h)) (castObjs h') = castObjs h"
     "take (length (stateObjs h)) (stateObjs h') = stateObjs h"
    using assms(1) by (simp_all add: unchanged_def)
  have ob: "stateObjs h' ! ref = ?ob" "ref < length (stateObjs h')"
    using take_prefix_nth [OF p(4) r] by simp_all
  have bd: "boardArrays h' ! boardRef ?ob = boardArrays h ! boardRef ?ob"
    "boardRef ?ob < length (boardArrays h')"
    using take_prefix_nth [OF p(2) b] by simp_all
  have cs: "castObjs h' ! castRef ?ob = castObjs h ! castRef ?ob" "castRef ?ob < length (castObjs h')"
    using take_prefix_nth [OF p(3) c] by simp_all
  have rw: "\<forall>a\<in>set (boardArrays h ! boardRef ?ob). rowArrays h' ! a = rowArrays h ! a \<and> a < length (rowArrays h')"
    using take_prefix_nth [OF p(1)] rows by blast
  show "wellFormed h' ref"
    using ob bd cs rw by (simp add: wellFormed_def list_all_iff)
  show "readState h' ref = readState h ref"
    using ob bd cs rw by (simp add: readState_def Let_def readBoard_def)
qed

lemma newIn_allocState: "newIn h (allocState h rows cr ob) (length (stateObjs h))"
  by (simp add: newIn_def allocState_def list_all_iff)

text \<open>
  \<open>applyRawMove\<close> on the store fails exactly when the pure one does; otherwise it
  returns a new state object that reads as the pure result, and leaves every object
  that was in the store as it was.
\<close>

lemma applyRawMoveH_Inl:
  assumes "wellFormed h ref" "applyRawMove (readState h ref) m = Inl e"
  shows "applyRawMoveH h ref m = Inl e"
  using applyRawMoveH_refines [OF assms(1), of m] assms(2) by simp

lemma applyRawMoveH_Inr:
  assumes "wellFormed h ref" "applyRawMove (readState h ref) m = Inr s'"
  shows "\<exists>h'. applyRawMoveH h ref m = Inr (h', length (stateObjs h))
           \<and> unchanged h h' \<and> readState h' (length (stateObjs h)) = s'
           \<and> wellFormed h' (length (stateObjs h)) \<and> newIn h h' (length (stateObjs h))"
proof -
  let ?h' = "allocState h (board s') (castling s')
               \<lparr>boardRef = 0, turnF = turn s', castRef = 0, epF = enPassant s',
                halfF = halfmoveClock s', fullF = fullmoveNumber s'\<rparr>"
  have "applyRawMoveH h ref m = Inr (?h', length (stateObjs h))"
    using applyRawMoveH_refines [OF assms(1), of m] assms(2) by simp
  moreover have "readState ?h' (length (stateObjs h)) = s'"
    by (simp add: readState_allocState_new)
  ultimately show ?thesis
    using unchanged_allocState wellFormed_allocState_new newIn_allocState by blast
qed

lemma sameResult_simps:
  "sameResult h x None \<longleftrightarrow> x = None"
  "sameResult h x (Some (Inl e)) \<longleftrightarrow> x = Some (Inl e)"
  "sameResult h x (Some (Inr v)) \<longleftrightarrow> (\<exists>h'. x = Some (Inr (h', v)) \<and> unchanged h h')"
  by (auto simp: sameResult_def split: option.splits sum.splits prod.splits)

lemma sameResult_weaken:
  assumes "unchanged h h1" "sameResult h1 x y"
  shows "sameResult h x y"
proof (cases y)
  case None
  with assms show ?thesis by (simp add: sameResult_simps)
next
  case (Some r)
  show ?thesis
  proof (cases r)
    case (Inl e)
    with Some assms show ?thesis by (simp add: sameResult_simps)
  next
    case (Inr v)
    with Some assms(2) obtain h' where "x = Some (Inr (h', v))" "unchanged h1 h'"
      by (auto simp: sameResult_simps)
    with Some Inr unchanged_trans [OF assms(1)] show ?thesis
      by (auto simp: sameResult_simps)
  qed
qed

lemma legalFilterH_Inl:
  assumes "wellFormed h ref" "legalFilter (readState h ref) ms = Inl e"
  shows "legalFilterH h ref ms = Inl e"
  using assms
proof (induction ms arbitrary: h)
  case Nil
  then show ?case by simp
next
  case (Cons m ms)
  let ?s = "readState h ref"
  show ?case
  proof (cases "applyRawMove ?s m")
    case (Inl e')
    with Cons.prems have "e' = e" by simp
    with applyRawMoveH_Inl [OF Cons.prems(1) Inl] show ?thesis by simp
  next
    case (Inr nxt)
    from applyRawMoveH_Inr [OF Cons.prems(1) Inr] obtain h1 where
      h1: "applyRawMoveH h ref m = Inr (h1, length (stateObjs h))" "unchanged h h1"
      by blast
    have w1: "wellFormed h1 ref" "readState h1 ref = ?s"
      using unchanged_wellFormed [OF h1(2) Cons.prems(1)] by simp_all
    from Cons.prems(2) Inr have "legalFilter ?s ms = Inl e"
      by (simp split: sum.splits)
    then have "legalFilterH h1 ref ms = Inl e"
      using Cons.IH [OF w1(1)] w1(2) by simp
    with h1(1) show ?thesis by (simp add: Let_def)
  qed
qed

lemma legalFilterH_Inr:
  assumes "wellFormed h ref" "legalFilter (readState h ref) ms = Inr raws"
  shows "\<exists>h'. legalFilterH h ref ms = Inr (h', raws) \<and> unchanged h h'"
  using assms
proof (induction ms arbitrary: h raws)
  case Nil
  then show ?case by (simp add: unchanged_refl)
next
  case (Cons m ms)
  let ?s = "readState h ref"
  from Cons.prems(2) obtain nxt rest where
    nxt: "applyRawMove ?s m = Inr nxt" and rest: "legalFilter ?s ms = Inr rest"
    and raws: "raws = (if \<not> isInCheck (board nxt) (turn ?s) then m # rest else rest)"
    by (auto split: sum.splits)
  from applyRawMoveH_Inr [OF Cons.prems(1) nxt] obtain h1 where
    h1: "applyRawMoveH h ref m = Inr (h1, length (stateObjs h))" "unchanged h h1"
      "readState h1 (length (stateObjs h)) = nxt"
    by blast
  have w1: "wellFormed h1 ref" "readState h1 ref = ?s"
    using unchanged_wellFormed [OF h1(2) Cons.prems(1)] by simp_all
  from Cons.IH [OF w1(1)] rest w1(2) obtain h2 where
    h2: "legalFilterH h1 ref ms = Inr (h2, rest)" "unchanged h1 h2"
    by auto
  have "legalFilterH h ref (m # ms) = Inr (h2, raws)"
    using h1(1,3) h2(1) w1(2) raws by (simp add: Let_def)
  with unchanged_trans [OF h1(2) h2(2)] show ?case by blast
qed

lemma checkSuffixH_same:
  assumes wf: "wellFormed h ref"
    and glm: "\<And>h ref. wellFormed h ref \<Longrightarrow> sameResult h (glmH h ref) (glm (readState h ref))"
  shows "sameResult h (checkSuffixH glmH h ref m) (checkSuffix glm (readState h ref) m)"
proof (cases "applyRawMove (readState h ref) m")
  case (Inl e)
  with applyRawMoveH_Inl [OF wf Inl] show ?thesis
    by (simp add: checkSuffixH_def checkSuffix_def sameResult_simps)
next
  case (Inr nxt)
  from applyRawMoveH_Inr [OF wf Inr] obtain h1 where
    h1: "applyRawMoveH h ref m = Inr (h1, length (stateObjs h))" "unchanged h h1"
      "readState h1 (length (stateObjs h)) = nxt" "wellFormed h1 (length (stateObjs h))"
    by blast
  show ?thesis
  proof (cases "isInCheck (board nxt) (turn nxt)")
    case False
    with Inr h1 show ?thesis
      by (simp add: checkSuffixH_def checkSuffix_def sameResult_simps)
  next
    case True
    have g: "sameResult h1 (glmH h1 (length (stateObjs h))) (glm nxt)"
      using glm [OF h1(4)] h1(3) by simp
    have "sameResult h1 (checkSuffixH glmH h ref m) (checkSuffix glm (readState h ref) m)"
    proof (cases "glm nxt")
      case None
      with g True Inr h1 show ?thesis
        by (simp add: checkSuffixH_def checkSuffix_def sameResult_simps)
    next
      case (Some r)
      show ?thesis
      proof (cases r)
        case (Inl e)
        with Some g True Inr h1 show ?thesis
          by (simp add: checkSuffixH_def checkSuffix_def sameResult_simps)
      next
        case (Inr v)
        with Some g obtain h2 where "glmH h1 (length (stateObjs h)) = Some (Inr (h2, v))" "unchanged h1 h2"
          by (auto simp: sameResult_simps)
        with Some Inr True \<open>applyRawMove (readState h ref) m = Inr nxt\<close> h1 show ?thesis
          by (simp add: checkSuffixH_def checkSuffix_def sameResult_simps)
      qed
    qed
    with h1(2) show ?thesis by (rule sameResult_weaken)
  qed
qed

lemma sameResult_map:
  assumes "sameResult h x y"
  shows "sameResult h
           (case x of None \<Rightarrow> None | Some (Inl e) \<Rightarrow> Some (Inl e) | Some (Inr (h1, v)) \<Rightarrow> Some (Inr (h1, f v)))
           (case y of None \<Rightarrow> None | Some (Inl e) \<Rightarrow> Some (Inl e) | Some (Inr v) \<Rightarrow> Some (Inr (f v)))"
  using assms
  by (cases y) (auto simp: sameResult_simps split: sum.splits)

lemma generateSANH_same:
  assumes wf: "wellFormed h ref"
    and glm: "\<And>h ref. wellFormed h ref \<Longrightarrow> sameResult h (glmH h ref) (glm (readState h ref))"
  shows "sameResult h (generateSANH glmH h ref i raws) (generateSAN glm (readState h ref) i raws)"
proof -
  note cs = sameResult_map [OF checkSuffixH_same [OF wf glm]]
  show ?thesis
    unfolding generateSANH_def generateSAN_def Let_def
    by (auto simp: sameResult_simps unchanged_refl cs split: option.splits)
qed


lemma toLegalMoveH_same:
  assumes wf: "wellFormed h ref"
    and glm: "\<And>h ref. wellFormed h ref \<Longrightarrow> sameResult h (glmH h ref) (glm (readState h ref))"
  shows "sameResult h (toLegalMoveH glmH ref raws i h) (toLegalMove glm (readState h ref) raws i)"
proof -
  note gs = sameResult_map [OF generateSANH_same [OF wf glm]]
  show ?thesis
    unfolding toLegalMoveH_def toLegalMove_def Let_def
    by (auto simp: sameResult_simps gs split: option.splits)
qed

lemma sequenceH_same:
  assumes "\<And>i h'. i \<in> set is \<Longrightarrow> unchanged h h' \<Longrightarrow> sameResult h' (F i h') (G i)"
  shows "sameResult h (sequenceH (map F is) h) (sequenceAll (map G is))"
  using assms
proof (induction "is" arbitrary: h)
  case Nil
  then show ?case by (simp add: sameResult_simps unchanged_refl)
next
  case (Cons i "is")
  have hd: "sameResult h (F i h) (G i)"
    using Cons.prems [of i h] by (simp add: unchanged_refl)
  show ?case
  proof (cases "G i")
    case None
    with hd show ?thesis by (simp add: sameResult_simps)
  next
    case (Some r)
    show ?thesis
    proof (cases r)
      case (Inl e)
      with Some hd show ?thesis by (simp add: sameResult_simps)
    next
      case (Inr v)
      with Some hd obtain h1 where h1: "F i h = Some (Inr (h1, v))" "unchanged h h1"
        by (auto simp: sameResult_simps)
      have "sameResult h1 (sequenceH (map F is) h1) (sequenceAll (map G is))"
      proof (rule Cons.IH)
        fix j h'
        assume "j \<in> set is" "unchanged h1 h'"
        then show "sameResult h' (F j h') (G j)"
          using Cons.prems [of j h'] unchanged_trans [OF h1(2)] by simp
      qed
      then have tl: "sameResult h (sequenceH (map F is) h1) (sequenceAll (map G is))"
        by (rule sameResult_weaken [OF h1(2)])
      show ?thesis
      proof (cases "sequenceAll (map G is)")
        case None
        with tl Some Inr h1 show ?thesis by (simp add: sameResult_simps)
      next
        case (Some r')
        note S = this
        show ?thesis
        proof (cases r')
          case (Inl e)
          with tl S \<open>G i = Some r\<close> \<open>r = Inr v\<close> h1 show ?thesis by (simp add: sameResult_simps)
        next
          case (Inr vs)
          with tl S obtain h2 where "sequenceH (map F is) h1 = Some (Inr (h2, vs))" "unchanged h h2"
            by (auto simp: sameResult_simps)
          with S Inr \<open>G i = Some r\<close> \<open>r = Inr v\<close> h1 show ?thesis by (simp add: sameResult_simps)
        qed
      qed
    qed
  qed
qed

lemma getLegalMovesBodyH_same:
  assumes wf: "wellFormed h ref"
    and glm: "\<And>h ref. wellFormed h ref \<Longrightarrow> sameResult h (glmH h ref) (glm (readState h ref))"
  shows "sameResult h (getLegalMovesBodyH glmH h ref) (getLegalMovesBody glm (readState h ref))"
proof (cases "generatePseudoLegalMoves (readState h ref)")
  case (Inl e)
  then show ?thesis
    by (simp add: getLegalMovesBodyH_def getLegalMovesBody_def legalRaw_def sameResult_simps)
next
  case (Inr ps)
  show ?thesis
  proof (cases "legalFilter (readState h ref) ps")
    case (Inl e)
    with Inr legalFilterH_Inl [OF wf Inl] show ?thesis
      by (simp add: getLegalMovesBodyH_def getLegalMovesBody_def legalRaw_def sameResult_simps)
  next
    case (Inr raws)
    from legalFilterH_Inr [OF wf Inr] obtain h1 where
      h1: "legalFilterH h ref ps = Inr (h1, raws)" "unchanged h h1"
      by blast
    have "sameResult h1 (sequenceH (map (toLegalMoveH glmH ref raws) [0..<length raws]) h1)
            (sequenceAll (map (toLegalMove glm (readState h ref) raws) [0..<length raws]))"
    proof (rule sequenceH_same)
      fix i h'
      assume "unchanged h1 h'"
      then have u: "unchanged h h'" using h1(2) unchanged_trans by blast
      have "wellFormed h' ref" "readState h' ref = readState h ref"
        using unchanged_wellFormed [OF u wf] by simp_all
      then show "sameResult h' (toLegalMoveH glmH ref raws i h') (toLegalMove glm (readState h ref) raws i)"
        using toLegalMoveH_same [of h' ref glmH glm raws i] glm by simp
    qed
    then have "sameResult h (sequenceH (map (toLegalMoveH glmH ref raws) [0..<length raws]) h1)
            (sequenceAll (map (toLegalMove glm (readState h ref) raws) [0..<length raws]))"
      by (rule sameResult_weaken [OF h1(2)])
    with Inr \<open>generatePseudoLegalMoves (readState h ref) = Inr ps\<close> h1(1) show ?thesis
      by (simp add: getLegalMovesBodyH_def getLegalMovesBody_def legalRaw_def)
  qed
qed

text \<open>
  \<open>getLegalMoves\<close> on the store returns what the pure \<open>getLegalMoves\<close> returns on the
  state read from the store, and changes no object that was in the store.
\<close>

lemma getLegalMovesH_same:
  "wellFormed h ref \<Longrightarrow> sameResult h (getLegalMovesH n h ref) (getLegalMoves n (readState h ref))"
proof (induction n arbitrary: h ref)
  case 0
  then show ?case by (simp add: sameResult_simps)
next
  case (Suc n)
  show ?case
    using getLegalMovesBodyH_same [OF Suc.prems, of "getLegalMovesH n" "getLegalMoves n"] Suc.IH
    by simp
qed

lemma storeOf_reads: "wellFormed (storeOf s) 0" "readState (storeOf s) 0 = s"
proof -
  have l: "length (stateObjs emptyStore) = 0" by (simp add: emptyStore_def)
  show "wellFormed (storeOf s) 0"
    unfolding storeOf_def using wellFormed_allocState_new [of emptyStore] by (simp add: l)
  show "readState (storeOf s) 0 = s"
    unfolding storeOf_def using readState_allocState_new [of emptyStore] by (simp add: l)
qed

lemma makeMoveH_returns:
  assumes wf: "wellFormed h ref" and ms: "getLegalMoves n (readState h ref) = Some (Inr ms)"
  shows "\<exists>h1. getLegalMovesH n h ref = Some (Inr (h1, ms)) \<and> unchanged h h1
           \<and> (case find (\<lambda>m. uci m = u) ms of
                None \<Rightarrow> makeMoveH n h ref u = Some (Inr (h1, None))
              | Some lm \<Rightarrow>
                  (\<exists>h2. makeMoveH n h ref u = Some (Inr (h2, Some (length (stateObjs h1), lm)))
                     \<and> unchanged h h2 \<and> newIn h h2 (length (stateObjs h1))
                     \<and> wellFormed h2 (length (stateObjs h1))
                     \<and> applyRawMove (readState h ref) (rawOf lm) = Inr (readState h2 (length (stateObjs h1)))))"
proof -
  let ?s = "readState h ref"
  from getLegalMovesH_same [OF wf, of n] ms obtain h1 where
    h1: "getLegalMovesH n h ref = Some (Inr (h1, ms))" "unchanged h h1"
    by (auto simp: sameResult_simps)
  have w1: "wellFormed h1 ref" "readState h1 ref = ?s"
    using unchanged_wellFormed [OF h1(2) wf] by simp_all
  show ?thesis
  proof (cases "find (\<lambda>m. uci m = u) ms")
    case None
    with h1 show ?thesis by (simp add: makeMoveH_def)
  next
    case (Some lm)
    then have "lm \<in> set ms" by (auto simp: find_Some_iff)
    from legal_move_applies [OF ms this] obtain s' where s': "applyRawMove ?s (rawOf lm) = Inr s'"
      by blast
    from applyRawMoveH_Inr [OF w1(1), of "rawOf lm" s'] s' w1(2) obtain h2 where
      h2: "applyRawMoveH h1 ref (rawOf lm) = Inr (h2, length (stateObjs h1))" "unchanged h1 h2"
        "readState h2 (length (stateObjs h1)) = s'" "wellFormed h2 (length (stateObjs h1))"
        "newIn h1 h2 (length (stateObjs h1))"
      by auto
    have u: "unchanged h h2" using h1(2) h2(2) by (rule unchanged_trans)
    have "newIn h h2 (length (stateObjs h1))"
      using h2(5) unchanged_length [OF h1(2)] by (auto simp: newIn_def list_all_iff)
    moreover have "makeMoveH n h ref u = Some (Inr (h2, Some (length (stateObjs h1), lm)))"
      using h1(1) Some h2(1) by (simp add: makeMoveH_def)
    ultimately show ?thesis
      using h1 Some u h2(3,4) s' by simp
  qed
qed

lemma makeMoveH_no_throw:
  assumes wf: "wellFormed h ref" and v: "validState (readState h ref)"
  shows "makeMoveH n h ref u \<noteq> Some (Inl e)"
proof (cases "getLegalMoves n (readState h ref)")
  case None
  with getLegalMovesH_same [OF wf, of n] show ?thesis
    by (simp add: sameResult_simps makeMoveH_def)
next
  case (Some r)
  show ?thesis
  proof (cases r)
    case (Inl e')
    with Some getLegalMoves_no_throw [OF v] show ?thesis by blast
  next
    case (Inr ms)
    with Some have ms: "getLegalMoves n (readState h ref) = Some (Inr ms)" by simp
    from makeMoveH_returns [OF wf ms, of u] show ?thesis
      by (auto split: option.splits)
  qed
qed

text \<open>
  C7. For every store in which the reference \<open>ref\<close> holds a structurally valid state,
  and every action string \<open>u\<close>: \<open>makeMove\<close> never throws, whatever the fuel; and
  whenever \<open>getLegalMoves\<close> returns its list \<open>ms\<close> for that state, \<open>makeMove\<close> returns,
  it returns \<open>null\<close> if and only if \<open>u\<close> is the \<open>uci\<close> string of no move of \<open>ms\<close>, and in
  both cases every object that was in the store is unchanged, so the input state reads
  as before; on success the returned state is a state object that was not in the store,
  with a board array, row arrays and a castling object that were not in the store, and
  it reads as \<open>applyRawMove\<close> of the input state and the found move.
\<close>

theorem makeMove_leaves_input_unmodified:
  assumes "wellFormed h ref" and "validState (readState h ref)"
  shows "(\<forall>k e. makeMoveH k h ref u \<noteq> Some (Inl e))
       \<and> (\<forall>ms. getLegalMoves n (readState h ref) = Some (Inr ms) \<longrightarrow>
            (\<exists>h1. getLegalMovesH n h ref = Some (Inr (h1, ms)) \<and> unchanged h h1)
            \<and> (\<exists>h' res. makeMoveH n h ref u = Some (Inr (h', res))
                 \<and> (res = None \<longleftrightarrow> u \<notin> uci ` set ms)
                 \<and> unchanged h h' \<and> wellFormed h' ref \<and> readState h' ref = readState h ref
                 \<and> (\<forall>nref lm. res = Some (nref, lm) \<longrightarrow>
                       newIn h h' nref \<and> wellFormed h' nref \<and> lm \<in> set ms \<and> uci lm = u
                       \<and> applyRawMove (readState h ref) (rawOf lm) = Inr (readState h' nref)
                       \<and> makeMove n (readState h ref) u = Some (Inr (Some (readState h' nref, lm))))))"
proof (intro conjI allI impI)
  fix k e
  show "makeMoveH k h ref u \<noteq> Some (Inl e)"
    by (rule makeMoveH_no_throw [OF assms])
next
  fix ms
  assume ms: "getLegalMoves n (readState h ref) = Some (Inr ms)"
  from makeMoveH_returns [OF assms(1) ms, of u]
  show "\<exists>h1. getLegalMovesH n h ref = Some (Inr (h1, ms)) \<and> unchanged h h1" by blast
next
  fix ms
  assume ms: "getLegalMoves n (readState h ref) = Some (Inr ms)"
  from makeMoveH_returns [OF assms(1) ms, of u] obtain h1 where
    h1: "unchanged h h1"
      "case find (\<lambda>m. uci m = u) ms of
         None \<Rightarrow> makeMoveH n h ref u = Some (Inr (h1, None))
       | Some lm \<Rightarrow>
           (\<exists>h2. makeMoveH n h ref u = Some (Inr (h2, Some (length (stateObjs h1), lm)))
              \<and> unchanged h h2 \<and> newIn h h2 (length (stateObjs h1))
              \<and> wellFormed h2 (length (stateObjs h1))
              \<and> applyRawMove (readState h ref) (rawOf lm) = Inr (readState h2 (length (stateObjs h1))))"
    by blast
  show "\<exists>h' res. makeMoveH n h ref u = Some (Inr (h', res))
          \<and> (res = None \<longleftrightarrow> u \<notin> uci ` set ms)
          \<and> unchanged h h' \<and> wellFormed h' ref \<and> readState h' ref = readState h ref
          \<and> (\<forall>nref lm. res = Some (nref, lm) \<longrightarrow>
                newIn h h' nref \<and> wellFormed h' nref \<and> lm \<in> set ms \<and> uci lm = u
                \<and> applyRawMove (readState h ref) (rawOf lm) = Inr (readState h' nref)
                \<and> makeMove n (readState h ref) u = Some (Inr (Some (readState h' nref, lm))))"
  proof (cases "find (\<lambda>m. uci m = u) ms")
    case None
    then have nu: "u \<notin> uci ` set ms" by (simp add: find_uci)
    from None h1(2) have mk: "makeMoveH n h ref u = Some (Inr (h1, None))" by simp
    show ?thesis
      using mk nu h1(1) unchanged_wellFormed [OF h1(1) assms(1)] by simp
  next
    case (Some lm)
    then have lm: "lm \<in> set ms" "uci lm = u" by (auto simp: find_Some_iff)
    then have iu: "u \<in> uci ` set ms" by auto
    from Some h1(2) obtain h2 where
      h2: "makeMoveH n h ref u = Some (Inr (h2, Some (length (stateObjs h1), lm)))"
        "unchanged h h2" "newIn h h2 (length (stateObjs h1))" "wellFormed h2 (length (stateObjs h1))"
        "applyRawMove (readState h ref) (rawOf lm) = Inr (readState h2 (length (stateObjs h1)))"
      by auto
    have pm: "makeMove n (readState h ref) u
              = Some (Inr (Some (readState h2 (length (stateObjs h1)), lm)))"
      using ms Some h2(5) by (simp add: makeMove_def)
    show ?thesis
      using h2 iu lm pm unchanged_wellFormed [OF h2(2) assms(1)] by simp
  qed
qed

theorem makeMove_leaves_input_unmodified_witness:
  "wellFormed (storeOf rookEnding) 0 \<and> validState (readState (storeOf rookEnding) 0)
   \<and> (\<exists>ms. getLegalMoves 2 (readState (storeOf rookEnding) 0) = Some (Inr ms)
        \<and> (\<exists>h' nref lm. makeMoveH 2 (storeOf rookEnding) 0 ''h1h8'' = Some (Inr (h', Some (nref, lm)))
              \<and> unchanged (storeOf rookEnding) h' \<and> readState h' 0 = rookEnding
              \<and> newIn (storeOf rookEnding) h' nref \<and> uci lm = ''h1h8''
              \<and> applyRawMove rookEnding (rawOf lm) = Inr (readState h' nref))
        \<and> (\<exists>h'. makeMoveH 2 (storeOf rookEnding) 0 ''h1h9'' = Some (Inr (h', None))
              \<and> unchanged (storeOf rookEnding) h' \<and> readState h' 0 = rookEnding))"
proof -
  let ?h = "storeOf rookEnding"
  have wf: "wellFormed ?h 0" and rd: "readState ?h 0 = rookEnding"
    by (simp_all add: storeOf_reads)
  have v: "validState (readState ?h 0)" using rookEnding_valid rd by simp
  from rookEnding_returns obtain ms where
    ms: "getLegalMoves 2 rookEnding = Some (Inr ms)" and ucis: "map uci ms = rookEndingUcis"
    by blast
  have ms': "getLegalMoves 2 (readState ?h 0) = Some (Inr ms)" using ms rd by simp
  have set_ucis: "uci ` set ms = set rookEndingUcis"
    using ucis by (metis set_map)
  have yes: "''h1h8'' \<in> uci ` set ms" unfolding set_ucis by (simp add: rookEndingUcis_def)
  have no: "''h1h9'' \<notin> uci ` set ms" unfolding set_ucis by (simp add: rookEndingUcis_def)
  from makeMove_leaves_input_unmodified [OF wf v, of "''h1h8''" 2] ms' obtain h' res where
    a: "makeMoveH 2 ?h 0 ''h1h8'' = Some (Inr (h', res))" "res = None \<longleftrightarrow> ''h1h8'' \<notin> uci ` set ms"
      "unchanged ?h h'" "readState h' 0 = readState ?h 0"
      "\<forall>nref lm. res = Some (nref, lm) \<longrightarrow>
         newIn ?h h' nref \<and> wellFormed h' nref \<and> lm \<in> set ms \<and> uci lm = ''h1h8''
         \<and> applyRawMove (readState ?h 0) (rawOf lm) = Inr (readState h' nref)
         \<and> makeMove 2 (readState ?h 0) ''h1h8'' = Some (Inr (Some (readState h' nref, lm)))"
    by blast
  from a(2) yes obtain nref lm where res: "res = Some (nref, lm)" by (cases res) auto
  with a(5) have b: "newIn ?h h' nref" "uci lm = ''h1h8''"
    "applyRawMove (readState ?h 0) (rawOf lm) = Inr (readState h' nref)"
    by blast+
  have first: "\<exists>h' nref lm. makeMoveH 2 ?h 0 ''h1h8'' = Some (Inr (h', Some (nref, lm)))
              \<and> unchanged ?h h' \<and> readState h' 0 = rookEnding
              \<and> newIn ?h h' nref \<and> uci lm = ''h1h8''
              \<and> applyRawMove rookEnding (rawOf lm) = Inr (readState h' nref)"
    using a(1,3,4) res b rd by auto
  from makeMove_leaves_input_unmodified [OF wf v, of "''h1h9''" 2] ms' obtain h'' res' where
    c: "makeMoveH 2 ?h 0 ''h1h9'' = Some (Inr (h'', res'))" "res' = None \<longleftrightarrow> ''h1h9'' \<notin> uci ` set ms"
      "unchanged ?h h''" "readState h'' 0 = readState ?h 0"
    by blast
  have second: "\<exists>h'. makeMoveH 2 ?h 0 ''h1h9'' = Some (Inr (h', None))
              \<and> unchanged ?h h' \<and> readState h' 0 = rookEnding"
    using c no rd by auto
  show ?thesis
    using wf v ms' first second by blast
qed

section \<open>The codec round trip\<close>

lemma splitOn_no_sep: "sep \<notin> set x \<Longrightarrow> splitOn sep x = [x]"
  by (induction x) auto

lemma splitOn_append: "sep \<notin> set x \<Longrightarrow> splitOn sep (x @ sep # rest) = x # splitOn sep rest"
  by (induction x) auto

lemma splitOn_joinWith:
  assumes "\<forall>x\<in>set xs. sep \<notin> set x" "xs \<noteq> []"
  shows "splitOn sep (joinWith sep xs) = xs"
  using assms
proof (induction sep xs rule: joinWith.induct)
  case (1 sep)
  then show ?case by simp
next
  case (2 sep x)
  then show ?case by (simp add: splitOn_no_sep)
next
  case (3 sep x y ys)
  then show ?case by (simp add: splitOn_append)
qed

lemma joinWith_set:
  "set (joinWith sep xs) \<subseteq> insert sep (\<Union>x\<in>set xs. set x)"
  by (induction sep xs rule: joinWith.induct) auto

lemma showNat_digit: "n < 10 \<Longrightarrow> showNat n = [''0123456789'' ! n]"
  by (subst showNat.simps) simp

lemma digit_chars:
  "n < 10 \<Longrightarrow> ''0123456789'' ! n \<in> set ''0123456789''"
  by (rule nth_mem) simp

lemma showNat_chars: "set (showNat n) \<subseteq> set ''0123456789''"
proof (induction n rule: showNat.induct)
  case (1 n)
  show ?case
  proof (cases "n < 10")
    case True
    then show ?thesis using digit_chars [OF True] by (subst showNat.simps) simp
  next
    case False
    have "n mod 10 < 10" by simp
    from digit_chars [OF this] 1 [OF False] False show ?thesis
      by (subst showNat.simps) simp
  qed
qed

lemma showNat_nonempty: "showNat n \<noteq> []"
  by (subst showNat.simps) simp

lemma digitVal_digit: "ch \<in> set ''0123456789'' \<Longrightarrow> \<exists>d<10. digitVal ch = Some d"
  by (auto simp: digitVal_def)

lemma digitVal_nth: "d < 10 \<Longrightarrow> digitVal (''0123456789'' ! d) = Some d"
proof -
  assume "d < 10"
  then have "d \<in> {0, 1, 2, 3, 4, 5, 6, 7, 8, 9}" by auto
  then show ?thesis by (auto simp: digitVal_def)
qed

lemma parseDigits_append:
  "\<forall>ch\<in>set xs. \<exists>d<10. digitVal ch = Some d
     \<Longrightarrow> parseDigits 10 (xs @ ys) acc = parseDigits 10 ys (parseDigits 10 xs acc)"
  by (induction xs arbitrary: acc) auto

lemma showNat_digits: "\<forall>ch\<in>set (showNat n). \<exists>d<10. digitVal ch = Some d"
  using showNat_chars [of n] digitVal_digit by blast

lemma parseDigits_showNat: "parseDigits 10 (showNat n) None = Some n"
proof (induction n rule: showNat.induct)
  case (1 n)
  show ?case
  proof (cases "n < 10")
    case True
    then show ?thesis by (simp add: showNat_digit digitVal_nth)
  next
    case False
    have m: "n mod 10 < 10" by simp
    have s: "showNat n = showNat (n div 10) @ [''0123456789'' ! (n mod 10)]"
      using False by (subst showNat.simps) simp
    have "parseDigits 10 (showNat n) None
          = parseDigits 10 [''0123456789'' ! (n mod 10)] (parseDigits 10 (showNat (n div 10)) None)"
      unfolding s by (rule parseDigits_append [OF showNat_digits])
    also have "\<dots> = parseDigits 10 [''0123456789'' ! (n mod 10)] (Some (n div 10))"
      using 1 [OF False] by simp
    also have "\<dots> = Some (n div 10 * 10 + n mod 10)"
      by (simp add: digitVal_nth [OF m])
    finally show ?thesis by simp
  qed
qed

lemma parseUnsigned_decimal:
  assumes "set xs \<subseteq> set ''0123456789''"
  shows "parseUnsigned xs = parseDigits 10 xs None"
proof (cases xs)
  case Nil
  then show ?thesis by (simp add: parseUnsigned_def)
next
  case (Cons c0 ys)
  show ?thesis
  proof (cases ys)
    case Nil
    with Cons show ?thesis by (simp add: parseUnsigned_def)
  next
    case (Cons x rest)
    with \<open>xs = c0 # ys\<close> assms have "x \<in> set ''0123456789''" by simp
    then have "x \<noteq> CHR ''x''" "x \<noteq> CHR ''X''" by auto
    with Cons \<open>xs = c0 # ys\<close> show ?thesis
      by (simp only: parseUnsigned_def list.case) simp
  qed
qed

lemma parseUnsigned_showNat: "parseUnsigned (showNat n) = Some n"
  by (simp only: parseUnsigned_decimal [OF showNat_chars] parseDigits_showNat)

lemma parseInt_showInt: "0 \<le> i \<Longrightarrow> parseInt (showInt i) = Some i"
proof -
  assume i: "0 \<le> i"
  obtain ch cs where s: "showNat (nat i) = ch # cs"
    using showNat_nonempty [of "nat i"] by (cases "showNat (nat i)") auto
  then have "ch \<in> set (showNat (nat i))" by simp
  then have "ch \<in> set ''0123456789''" using showNat_chars by blast
  then have ch: "\<not> isSpace ch" "ch \<noteq> CHR ''-''" "ch \<noteq> CHR ''+''"
    by (auto simp: isSpace_def)
  have "parseInt (showInt i) = map_option int (parseUnsigned (ch # cs))"
    using i s ch by (simp add: parseInt_def showInt_def)
  also have "\<dots> = Some i"
    using parseUnsigned_showNat [of "nat i"] s i by simp
  finally show ?thesis .
qed

lemma showInt_chars: "0 \<le> i \<Longrightarrow> set (showInt i) \<subseteq> set ''0123456789''"
  using showNat_chars by (simp add: showInt_def)

lemma pieceChar_facts:
  "emptyRun (pieceChar p) = None \<and> pieceOfChar (pieceChar p) = Some p
   \<and> pieceChar p \<noteq> CHR ''/'' \<and> pieceChar p \<noteq> CHR '' ''"
proof -
  obtain c t where p: "p = \<lparr>color = c, type = t\<rparr>" by (cases p) auto
  show ?thesis
    unfolding p
    by (cases c; cases t)
       (simp_all add: pieceChar_def upperLetter_def typeLetter_def emptyRun_def pieceOfChar_def)
qed

lemma emptyRun_showNat:
  assumes "0 < e" "e \<le> 8"
  shows "\<exists>ch. showNat e = [ch] \<and> emptyRun ch = Some e"
proof -
  from assms have "e \<in> {1, 2, 3, 4, 5, 6, 7, 8}" by auto
  then show ?thesis by (auto simp: showNat_digit emptyRun_def)
qed

lemma decodeRow_encodeRow:
  "e + length cells \<le> 8 \<Longrightarrow> decodeRow (encodeRow cells e) = Some (replicate e None @ cells)"
proof (induction cells e rule: encodeRow.induct)
  case (1 e)
  show ?case
  proof (cases "0 < e")
    case True
    with 1 emptyRun_showNat [of e] obtain ch where "showNat e = [ch]" "emptyRun ch = Some e" by auto
    with True show ?thesis by simp
  next
    case False
    then show ?thesis by simp
  qed
next
  case (2 cells e)
  then have "decodeRow (encodeRow cells (e + 1)) = Some (replicate (e + 1) None @ cells)" by simp
  then show ?case by (simp add: replicate_app_Cons_same)
next
  case (3 p cells e)
  then have ih: "decodeRow (encodeRow cells 0) = Some cells" by simp
  note pf = pieceChar_facts [of p]
  show ?case
  proof (cases "0 < e")
    case True
    with 3 emptyRun_showNat [of e] obtain ch where "showNat e = [ch]" "emptyRun ch = Some e" by auto
    with True ih pf show ?thesis by simp
  next
    case False
    with ih pf show ?thesis by simp
  qed
qed

lemma encodeRow_chars:
  "CHR ''/'' \<notin> set (encodeRow cells e) \<and> CHR '' '' \<notin> set (encodeRow cells e)"
proof (induction cells e rule: encodeRow.induct)
  case (1 e)
  have "CHR ''/'' \<notin> set (showNat e) \<and> CHR '' '' \<notin> set (showNat e)"
    using showNat_chars [of e] by auto
  then show ?case by simp
next
  case (2 cells e)
  then show ?case by simp
next
  case (3 p cells e)
  have "CHR ''/'' \<notin> set (showNat e) \<and> CHR '' '' \<notin> set (showNat e)"
    using showNat_chars [of e] by auto
  with 3 pieceChar_facts [of p] show ?case by auto
qed

lemma row8_nth:
  assumes "length row = 8"
  shows "[row ! 0, row ! 1, row ! 2, row ! 3, row ! 4, row ! 5, row ! 6, row ! 7] = row"
proof -
  have "map ((!) row) [0..<8] = row" using assms map_nth [of row] by simp
  moreover have "[0..<8] = [0, 1, 2, 3, 4, 5, 6, 7::nat]" by (simp add: upt_rec)
  ultimately show ?thesis by simp
qed

lemma rowCells_valid:
  assumes "validBoard b" "r \<in> {0, 1, 2, 3, 4, 5, 6, 7}"
  shows "rowCells b r = b ! nat r"
proof -
  have len: "length b = 8" and rows: "\<forall>row\<in>set b. length row = 8"
    using assms(1) by (simp_all add: validBoard_def list_all_iff)
  have r: "0 \<le> r" "r < 8" "nat r < length b" using assms(2) len by auto
  then have l: "length (b ! nat r) = 8" using rows by simp
  show ?thesis
    using r l row8_nth [OF l] len by (simp add: rowCells_def boardAt_def)
qed

lemma board_rows_encoded:
  assumes "validBoard b"
  shows "map (\<lambda>r. encodeRow (rowCells b r) 0) [0, 1, 2, 3, 4, 5, 6, 7] = map (\<lambda>row. encodeRow row 0) b"
proof -
  have len: "length b = 8" using assms by (simp add: validBoard_def)
  have "map (\<lambda>r. encodeRow (rowCells b r) 0) [0, 1, 2, 3, 4, 5, 6, 7]
        = map (\<lambda>row. encodeRow row 0) [b ! 0, b ! 1, b ! 2, b ! 3, b ! 4, b ! 5, b ! 6, b ! 7]"
    using rowCells_valid [OF assms] by simp
  then show ?thesis by (simp only: row8_nth [OF len])
qed

lemma allSome_map_Some: "allSome (map Some vs) = Some vs"
  by (induction vs) auto

lemma rows_decoded:
  assumes "validBoard b"
  shows "allSome (map decodeRow (take 8 (map (\<lambda>row. encodeRow row 0) b))) = Some b"
proof -
  have len: "length b = 8" and rows: "\<forall>row\<in>set b. length row = 8"
    using assms by (simp_all add: validBoard_def list_all_iff)
  have "map (decodeRow \<circ> (\<lambda>row. encodeRow row 0)) b = map Some b"
    by (rule map_cong) (simp_all add: rows decodeRow_encodeRow)
  then have "map decodeRow (map (\<lambda>row. encodeRow row 0) b) = map Some b"
    by (simp only: map_map)
  moreover have "take 8 (map (\<lambda>row. encodeRow row 0) b) = map (\<lambda>row. encodeRow row 0) b"
    using len by simp
  ultimately show ?thesis by (simp only: allSome_map_Some)
qed

lemma split_fields:
  assumes "CHR '' '' \<notin> set a" "CHR '' '' \<notin> set b" "CHR '' '' \<notin> set c" "CHR '' '' \<notin> set d"
    "CHR '' '' \<notin> set e" "CHR '' '' \<notin> set f"
  shows "splitOn CHR '' '' (a @ '' '' @ b @ '' '' @ c @ '' '' @ d @ '' '' @ e @ '' '' @ f)
         = [a, b, c, d, e, f]"
  using assms by (simp add: splitOn_append splitOn_no_sep)

lemma castleStr_flags:
  "(CHR ''K'' \<in> set (castleStr cr) \<longleftrightarrow> castK cr) \<and> (CHR ''Q'' \<in> set (castleStr cr) \<longleftrightarrow> castQ cr)
   \<and> (CHR ''k'' \<in> set (castleStr cr) \<longleftrightarrow> castk cr) \<and> (CHR ''q'' \<in> set (castleStr cr) \<longleftrightarrow> castq cr)
   \<and> CHR '' '' \<notin> set (castleStr cr)"
  by (simp add: castleStr_def Let_def)

lemma colorStr_turnOf: "turnOf (colorStr c) = Some c \<and> CHR '' '' \<notin> set (colorStr c)"
  by (cases c) (simp_all add: turnOf_def colorStr_def)

lemma squareName_facts:
  assumes "squareName sq"
  shows "sq \<noteq> [] \<and> sq \<noteq> ''-'' \<and> CHR '' '' \<notin> set sq"
proof -
  from assms obtain r c where rc: "(r, c) \<in> set squares" "sq = rcToSq r c"
    by (auto simp: squareName_def list_ex_iff)
  then have "r \<in> {0, 1, 2, 3, 4, 5, 6, 7}" "c \<in> {0, 1, 2, 3, 4, 5, 6, 7}"
    by (auto simp: squares_def)
  then show ?thesis
    unfolding rc(2) by (auto simp: rcToSq_def strAt_def FILES_def RANKS_def)
qed

lemma board_field:
  assumes "validBoard b"
  shows "splitOn CHR ''/'' (joinWith CHR ''/'' (map (\<lambda>row. encodeRow row 0) b))
           = map (\<lambda>row. encodeRow row 0) b"
    and "CHR '' '' \<notin> set (joinWith CHR ''/'' (map (\<lambda>row. encodeRow row 0) b))"
proof -
  have "b \<noteq> []" using assms by (auto simp: validBoard_def)
  then show "splitOn CHR ''/'' (joinWith CHR ''/'' (map (\<lambda>row. encodeRow row 0) b))
           = map (\<lambda>row. encodeRow row 0) b"
    by (intro splitOn_joinWith) (auto simp: encodeRow_chars)
  show "CHR '' '' \<notin> set (joinWith CHR ''/'' (map (\<lambda>row. encodeRow row 0) b))"
    using joinWith_set [of "CHR ''/''" "map (\<lambda>row. encodeRow row 0) b"] encodeRow_chars
    by auto
qed

lemma parseFEN_fields:
  assumes parts: "splitOn CHR '' '' t = [B, T, C, E, H, F]"
    and rows: "splitOn CHR ''/'' B = rows" "length rows = 8"
      "allSome (map decodeRow (take 8 rows)) = Some b"
    and trn: "turnOf T = Some trn"
    and clocks: "parseInt H = Some h" "parseInt F = Some f"
  shows "parseFEN t = ParseReturns
           \<lparr>board = b, turn = trn,
            castling = \<lparr>castK = CHR ''K'' \<in> set C, castQ = CHR ''Q'' \<in> set C,
                        castk = CHR ''k'' \<in> set C, castq = CHR ''q'' \<in> set C\<rparr>,
            enPassant = (if E = ''-'' then None else Some E),
            halfmoveClock = h, fullmoveNumber = f\<rparr>"
proof -
  have "allSome (map decodeRow rows) = Some b" using rows(2,3) by simp
  then show ?thesis
    unfolding parseFEN_def parts
    by (simp add: Let_def rows trn clocks)
qed

text \<open>The round trip on the states \<open>codecState\<close> describes.\<close>

lemma codec_round_trip:
  assumes "codecState s"
  shows "\<exists>t. toFEN s = Inr t \<and> parseFEN t = ParseReturns s"
proof -
  define rows where "rows = map (\<lambda>row. encodeRow row 0) (board s)"
  define B where "B = joinWith CHR ''/'' rows"
  define E where "E = (case enPassant s of None \<Rightarrow> ''-'' | Some ep \<Rightarrow> if ep = [] then ''-'' else ep)"
  define T where "T = colorStr (turn s)"
  define C where "C = castleStr (castling s)"
  define H where "H = showInt (halfmoveClock s)"
  define F where "F = showInt (fullmoveNumber s)"
  define t where "t = B @ '' '' @ T @ '' '' @ C @ '' '' @ E @ '' '' @ H @ '' '' @ F"
  have vb: "validBoard (board s)" and h: "0 \<le> halfmoveClock s" and f: "0 \<le> fullmoveNumber s"
    and ep: "case enPassant s of None \<Rightarrow> True | Some sq \<Rightarrow> squareName sq"
    using assms by (simp_all add: codecState_def validState_def)
  have len: "length (board s) = 8" using vb by (simp add: validBoard_def)
  have t: "toFEN s = Inr t"
    unfolding t_def B_def rows_def E_def T_def C_def H_def F_def
    by (simp only: toFEN_def board_rows_encoded [OF vb]) (simp add: len)
  have E: "CHR '' '' \<notin> set E" "(if E = ''-'' then None else Some E) = enPassant s"
    unfolding E_def using ep squareName_facts by (auto split: option.splits)
  have sp: "CHR '' '' \<notin> set H" "CHR '' '' \<notin> set F"
    unfolding H_def F_def using showInt_chars [OF h] showInt_chars [OF f] by auto
  have bs: "CHR '' '' \<notin> set B" "splitOn CHR ''/'' B = rows"
    unfolding B_def rows_def using board_field [OF vb] by simp_all
  have tc: "CHR '' '' \<notin> set T" "CHR '' '' \<notin> set C"
    unfolding T_def C_def by (simp_all add: colorStr_turnOf castleStr_flags)
  have parts: "splitOn CHR '' '' t = [B, T, C, E, H, F]"
    unfolding t_def by (rule split_fields [OF bs(1) tc E(1) sp])
  have r8: "length rows = 8" "allSome (map decodeRow (take 8 rows)) = Some (board s)"
    unfolding rows_def using len rows_decoded [OF vb] by simp_all
  have trn: "turnOf T = Some (turn s)" unfolding T_def by (simp add: colorStr_turnOf)
  have ck: "parseInt H = Some (halfmoveClock s)" "parseInt F = Some (fullmoveNumber s)"
    unfolding H_def F_def by (simp_all add: parseInt_showInt h f)
  have "parseFEN t = ParseReturns
           \<lparr>board = board s, turn = turn s,
            castling = \<lparr>castK = CHR ''K'' \<in> set C, castQ = CHR ''Q'' \<in> set C,
                        castk = CHR ''k'' \<in> set C, castq = CHR ''q'' \<in> set C\<rparr>,
            enPassant = (if E = ''-'' then None else Some E),
            halfmoveClock = halfmoveClock s, fullmoveNumber = fullmoveNumber s\<rparr>"
    by (rule parseFEN_fields [OF parts bs(2) r8 trn ck])
  also have "\<dots> = ParseReturns s"
    unfolding E(2) C_def by (simp add: castleStr_flags)
  finally show ?thesis using t by blast
qed

lemma squareName_rcToSq: "inBounds r c \<Longrightarrow> squareName (rcToSq r c)"
  unfolding squareName_def list_ex_iff using squares_iff [of r c] by blast

lemma codecState_start: "codecState startState"
  by (simp add: codecState_def validState_def validBoard_def startState_def backRow_def pawnRow_def
        emptyRow_def)

lemma codecState_move:
  assumes cs: "codecState s" and mk: "makeMove n s u = Some (Inr (Some (s', lm)))"
  shows "codecState s'"
proof -
  from mk obtain ms where ms: "getLegalMoves n s = Some (Inr ms)"
    and lm: "lm \<in> set ms" and ap: "applyRawMove s (rawOf lm) = Inr s'"
    by (auto simp: makeMove_def find_Some_iff split: option.splits sum.splits)
  let ?m = "rawOf lm"
  from getLegalMoves_raw [OF ms] obtain raws where
    raws: "legalRaw s = Inr raws" "map rawOf ms = raws" by blast
  with lm have mem: "?m \<in> set raws" by auto
  from legalRaw_props [OF raws(1) mem] obtain ps where
    ib: "inBounds (fromR ?m) (fromC ?m)" "inBounds (toR ?m) (toC ?m)"
    and ps: "generatePseudoLegalMoves s = Inr ps" "?m \<in> set ps"
    by blast
  have v: "validState s" and h: "0 \<le> halfmoveClock s" and f: "0 \<le> fullmoveNumber s"
    using cs by (simp_all add: codecState_def)
  have v': "validState s'" by (rule pseudo_next_valid [OF v ps ap])
  from applyRawMove_Inr [OF ap] obtain p where s': "s' = movedState s ?m p" by blast
  have mid: "inBounds ((fromR ?m + toR ?m) div 2) (fromC ?m)"
    using ib by (auto simp: inBounds_def)
  have ep: "case enPassant s' of None \<Rightarrow> True | Some sq \<Rightarrow> squareName sq"
    unfolding s' by (simp add: movedState_def Let_def squareName_rcToSq [OF mid])
  have "0 \<le> halfmoveClock s'" "0 \<le> fullmoveNumber s'"
    unfolding s' using h f by (simp_all add: movedState_def Let_def)
  with v' ep show ?thesis by (simp add: codecState_def)
qed

lemma reachable_codecState: "reachable s \<Longrightarrow> codecState s"
proof (induction rule: reachable.induct)
  case (start s)
  then have "s = startState" by (simp add: createGame_def startState_parsed)
  then show ?case by (simp add: codecState_start)
next
  case (move s n u s' lm)
  then show ?case using codecState_move by blast
qed

text \<open>
  C4. For every state reachable from the starting position by \<open>makeMove\<close>, \<open>toFEN\<close>
  returns a text and \<open>parseFEN\<close> of that text returns the state; the same holds for
  every state with a board of eight rows of eight squares, clocks that are not negative
  and an en-passant field that is \<open>null\<close> or a square name, which every reachable state
  is. Hence for every text \<open>t\<close> that \<open>toFEN\<close> produces from such a state, \<open>parseFEN t\<close>
  returns a state whose \<open>toFEN\<close> is \<open>t\<close>.
\<close>

theorem fen_round_trip:
  "(reachable s \<longrightarrow> codecState s \<and> (\<exists>t. toFEN s = Inr t \<and> parseFEN t = ParseReturns s))
   \<and> (codecState s \<longrightarrow> (\<exists>t. toFEN s = Inr t \<and> parseFEN t = ParseReturns s))
   \<and> (\<forall>s0. (reachable s0 \<or> codecState s0) \<and> toFEN s0 = Inr t
          \<longrightarrow> (\<exists>s'. parseFEN t = ParseReturns s' \<and> toFEN s' = Inr t))"
proof (intro conjI allI impI)
  assume "reachable s"
  then show "codecState s" by (rule reachable_codecState)
next
  assume "reachable s"
  then show "\<exists>t. toFEN s = Inr t \<and> parseFEN t = ParseReturns s"
    using codec_round_trip reachable_codecState by blast
next
  assume "codecState s"
  then show "\<exists>t. toFEN s = Inr t \<and> parseFEN t = ParseReturns s" by (rule codec_round_trip)
next
  fix s0
  assume a: "(reachable s0 \<or> codecState s0) \<and> toFEN s0 = Inr t"
  then have "codecState s0" using reachable_codecState by blast
  from codec_round_trip [OF this] a have "parseFEN t = ParseReturns s0" by auto
  with a show "\<exists>s'. parseFEN t = ParseReturns s' \<and> toFEN s' = Inr t" by blast
qed

lemma startState_e2e4:
  "map_option (map_sum id (map_option fst)) (makeMove 1 startState ''e2e4'') = Some (Inr (Some afterE4))"
  by code_simp

lemma afterE4_text: "toFEN afterE4 = Inr afterE4FEN"
  by code_simp

theorem fen_round_trip_witness:
  "reachable startState \<and> reachable afterE4 \<and> codecState afterE4
   \<and> toFEN afterE4 = Inr afterE4FEN \<and> parseFEN afterE4FEN = ParseReturns afterE4
   \<and> (\<exists>s'. parseFEN afterE4FEN = ParseReturns s' \<and> toFEN s' = Inr afterE4FEN)"
proof -
  have r0: "reachable startState"
    by (rule reachable.start) (simp add: createGame_def startState_parsed)
  from startState_e2e4 obtain lm where "makeMove 1 startState ''e2e4'' = Some (Inr (Some (afterE4, lm)))"
    by (cases "makeMove 1 startState ''e2e4''") (auto simp: map_sum_def split: sum.splits)
  with r0 have r1: "reachable afterE4" by (rule reachable.move)
  from fen_round_trip [of afterE4 afterE4FEN] r1 afterE4_text
  have "codecState afterE4" "parseFEN afterE4FEN = ParseReturns afterE4"
    "\<exists>s'. parseFEN afterE4FEN = ParseReturns s' \<and> toFEN s' = Inr afterE4FEN"
    by auto
  with r0 r1 afterE4_text show ?thesis by blast
qed

end
